theory Spec2Isabelle
  imports Complex_Main "HOL-Library.Word" "HOL-Library.Multiset" "HOL-Library.Monad_Syntax"
begin

section \<open>The free store\<close>

text \<open>
  The engine's handle classes (\<open>TSharedPointer\<close>, \<open>TWeakPointer\<close>, \<open>TUniquePtr\<close>,
  \<open>TStaticPtr\<close>) work on raw pointers into the C++ free store. The store is modelled as a
  list of slots: address \<open>0\<close> is \<open>nullptr\<close> and address \<open>a > 0\<close> names slot \<open>a - 1\<close>.
  \<open>new\<close> appends a slot, so an address is never handed out twice; \<open>delete\<close> turns the slot
  into \<open>Freed\<close>. A slot is either an object (\<open>new T\<close>), recorded with the list of classes it
  is an instance of (its dynamic class first, then its bases: what \<open>dynamic_cast\<close> consults),
  or a reference-count cell (\<open>new int(1)\<close>). What C++ leaves undefined (reading or deleting
  through a dangling or wild pointer, signed overflow of the \<open>int\<close> count) is a \<open>fault\<close>.
\<close>

type_synonym addr = nat

datatype 'c slot = Obj "'c list" | Cell int | Freed

datatype fault = UseAfterFree | DoubleFree | WildPointer | SignedOverflow | DeadHandle

record 'c heap =
  mem :: "'c slot list"
  freed :: "addr list"

definition empty_heap :: "'c heap" where
  "empty_heap = \<lparr>mem = [], freed = []\<rparr>"

definition slot_at :: "'c heap \<Rightarrow> addr \<Rightarrow> 'c slot option" where
  "slot_at h a = (if a = 0 \<or> length (mem h) < a then None else Some (mem h ! (a - 1)))"

definition INT_MAX :: int where
  "INT_MAX = 2147483647"

definition INT_MIN :: int where
  "INT_MIN = - 2147483648"

text \<open>\<open>*p\<close> for an \<open>int* p\<close>.\<close>

definition read_cell :: "'c heap \<Rightarrow> addr \<Rightarrow> fault + int" where
  "read_cell h a =
     (case slot_at h a of
        Some (Cell n) \<Rightarrow> Inr n
      | Some Freed \<Rightarrow> Inl UseAfterFree
      | _ \<Rightarrow> Inl WildPointer)"

text \<open>\<open>*p = n\<close>, only ever reached after \<open>*p\<close> has been read.\<close>

definition write_cell :: "addr \<Rightarrow> int \<Rightarrow> 'c heap \<Rightarrow> 'c heap" where
  "write_cell a n h = (if slot_at h a = None then h else h\<lparr>mem := (mem h)[a - 1 := Cell n]\<rparr>)"

text \<open>\<open>new T(...)\<close> and \<open>new int(n)\<close>: the new address and the store after it.\<close>

definition new_obj :: "'c list \<Rightarrow> 'c heap \<Rightarrow> addr \<times> 'c heap" where
  "new_obj classes h = (Suc (length (mem h)), h\<lparr>mem := mem h @ [Obj classes]\<rparr>)"

definition new_int :: "int \<Rightarrow> 'c heap \<Rightarrow> addr \<times> 'c heap" where
  "new_int n h = (Suc (length (mem h)), h\<lparr>mem := mem h @ [Cell n]\<rparr>)"

text \<open>
  \<open>delete p\<close> for an object pointer and for an \<open>int*\<close> (a no-op on \<open>nullptr\<close>); \<open>freed\<close>
  logs the addresses in the order they are deleted.
\<close>

definition free_slot :: "addr \<Rightarrow> 'c heap \<Rightarrow> 'c heap" where
  "free_slot p h = h\<lparr>mem := (mem h)[p - 1 := Freed], freed := freed h @ [p]\<rparr>"

definition delete_obj :: "addr \<Rightarrow> 'c heap \<Rightarrow> fault + 'c heap" where
  "delete_obj p h =
     (if p = 0 then Inr h
      else case slot_at h p of
        Some (Obj cs) \<Rightarrow> Inr (free_slot p h)
      | Some Freed \<Rightarrow> Inl DoubleFree
      | _ \<Rightarrow> Inl WildPointer)"

definition delete_int :: "addr \<Rightarrow> 'c heap \<Rightarrow> fault + 'c heap" where
  "delete_int p h =
     (if p = 0 then Inr h
      else case slot_at h p of
        Some (Cell n) \<Rightarrow> Inr (free_slot p h)
      | Some Freed \<Rightarrow> Inl DoubleFree
      | _ \<Rightarrow> Inl WildPointer)"

text \<open>
  \<open>dynamic_cast<U*>(p)\<close>: \<open>nullptr\<close> stays \<open>nullptr\<close>; otherwise the object's classes decide
  (single inheritance: the address is not adjusted). A cast to the static class or to
  one of its bases, which the compiler resolves without looking at the object, is treated
  like the others: on a live object the two agree, and on a dangling pointer this model
  faults where the compiled cast would hand the pointer back.
\<close>

definition dynamic_cast :: "'c \<Rightarrow> addr \<Rightarrow> 'c heap \<Rightarrow> fault + addr" where
  "dynamic_cast U p h =
     (if p = 0 then Inr 0
      else case slot_at h p of
        Some (Obj cs) \<Rightarrow> Inr (if U \<in> set cs then p else 0)
      | Some Freed \<Rightarrow> Inl UseAfterFree
      | _ \<Rightarrow> Inl WildPointer)"

section \<open>TSharedPointer\<close>

record shared =
  ptr :: addr
  refCount :: addr

text \<open>\<open>TSharedPointer()\<close>.\<close>

definition TSharedPointer_default :: shared where
  "TSharedPointer_default = \<lparr>ptr = 0, refCount = 0\<rparr>"

text \<open>\<open>explicit TSharedPointer(T* rawPtr) : ptr(rawPtr), refCount(new int(1))\<close>.\<close>

definition TSharedPointer_raw :: "addr \<Rightarrow> 'c heap \<Rightarrow> shared \<times> 'c heap" where
  "TSharedPointer_raw rawPtr h =
     (case new_int 1 h of (c, h') \<Rightarrow> (\<lparr>ptr = rawPtr, refCount = c\<rparr>, h'))"

text \<open>\<open>if (refCount) ++(*refCount);\<close>\<close>

definition incr_if :: "addr \<Rightarrow> 'c heap \<Rightarrow> fault + 'c heap" where
  "incr_if rc h =
     (if rc \<noteq> 0 then
        (case read_cell h rc of
           Inl f \<Rightarrow> Inl f
         | Inr n \<Rightarrow> if n = INT_MAX then Inl SignedOverflow else Inr (write_cell rc (n + 1) h))
      else Inr h)"

text \<open>\<open>TSharedPointer(T* rawPtr, int* existingRefCount)\<close>.\<close>

definition TSharedPointer_alias :: "addr \<Rightarrow> addr \<Rightarrow> 'c heap \<Rightarrow> fault + shared \<times> 'c heap" where
  "TSharedPointer_alias rawPtr existingRefCount h =
     (case incr_if existingRefCount h of
        Inl f \<Rightarrow> Inl f
      | Inr h' \<Rightarrow> Inr (\<lparr>ptr = rawPtr, refCount = existingRefCount\<rparr>, h'))"

text \<open>The copy constructor (and the templated one for a related type).\<close>

definition TSharedPointer_copy :: "shared \<Rightarrow> 'c heap \<Rightarrow> fault + shared \<times> 'c heap" where
  "TSharedPointer_copy other h =
     (case incr_if (refCount other) h of
        Inl f \<Rightarrow> Inl f
      | Inr h' \<Rightarrow> Inr (\<lparr>ptr = ptr other, refCount = refCount other\<rparr>, h'))"

text \<open>The move constructor: the new handle and what is left of \<open>other\<close>.\<close>

definition TSharedPointer_move :: "shared \<Rightarrow> shared \<times> shared" where
  "TSharedPointer_move other =
     (\<lparr>ptr = ptr other, refCount = refCount other\<rparr>, other\<lparr>ptr := 0, refCount := 0\<rparr>)"

text \<open>
  The private \<open>release()\<close>:
  \<^verbatim>\<open>if (refCount && --(*refCount) == 0) { delete ptr; delete refCount; }
  ptr = nullptr; refCount = nullptr;\<close>
  It returns the handle as the two last assignments leave it.
\<close>

definition release :: "shared \<Rightarrow> 'c heap \<Rightarrow> fault + shared \<times> 'c heap" where
  "release this h =
     (if refCount this \<noteq> 0 then
        (case read_cell h (refCount this) of
           Inl f \<Rightarrow> Inl f
         | Inr n \<Rightarrow>
             if n = INT_MIN then Inl SignedOverflow
             else let h1 = write_cell (refCount this) (n - 1) h in
               if n - 1 = 0 then
                 (case delete_obj (ptr this) h1 of
                    Inl f \<Rightarrow> Inl f
                  | Inr h2 \<Rightarrow>
                      (case delete_int (refCount this) h2 of
                         Inl f \<Rightarrow> Inl f
                       | Inr h3 \<Rightarrow> Inr (this\<lparr>ptr := 0, refCount := 0\<rparr>, h3)))
               else Inr (this\<lparr>ptr := 0, refCount := 0\<rparr>, h1))
      else Inr (this\<lparr>ptr := 0, refCount := 0\<rparr>, h))"

text \<open>
  Copy assignment \<open>this = other\<close> for two different handle objects (\<open>this != &other\<close>; on
  self-assignment the operator does nothing, see \<open>step\<close> below): \<open>other\<close> is read after
  the release.
\<close>

definition copy_assign :: "shared \<Rightarrow> shared \<Rightarrow> 'c heap \<Rightarrow> fault + shared \<times> 'c heap" where
  "copy_assign this other h =
     (case release this h of
        Inl f \<Rightarrow> Inl f
      | Inr (this1, h1) \<Rightarrow>
          (let this2 = this1\<lparr>ptr := ptr other, refCount := refCount other\<rparr> in
           case incr_if (refCount this2) h1 of
             Inl f \<Rightarrow> Inl f
           | Inr h2 \<Rightarrow> Inr (this2, h2)))"

text \<open>Move assignment for two different handle objects: the new \<open>this\<close> and \<open>other\<close>.\<close>

definition move_assign ::
  "shared \<Rightarrow> shared \<Rightarrow> 'c heap \<Rightarrow> fault + (shared \<times> shared) \<times> 'c heap" where
  "move_assign this other h =
     (case release this h of
        Inl f \<Rightarrow> Inl f
      | Inr (this1, h1) \<Rightarrow>
          Inr ((this1\<lparr>ptr := ptr other, refCount := refCount other\<rparr>,
                other\<lparr>ptr := 0, refCount := 0\<rparr>), h1))"

text \<open>\<open>operator bool\<close>, \<open>get\<close>, \<open>isNull\<close>, \<open>swap\<close>.\<close>

definition to_bool :: "shared \<Rightarrow> bool" where
  "to_bool this = (ptr this \<noteq> 0)"

definition get :: "shared \<Rightarrow> addr" where
  "get this = ptr this"

definition isNull :: "shared \<Rightarrow> bool" where
  "isNull this = (ptr this = 0)"

definition swap :: "shared \<Rightarrow> shared \<Rightarrow> shared \<times> shared" where
  "swap this other =
     (this\<lparr>ptr := ptr other, refCount := refCount other\<rparr>,
      other\<lparr>ptr := ptr this, refCount := refCount this\<rparr>)"

text \<open>\<open>reset(T* newPtr = nullptr)\<close>.\<close>

definition reset :: "addr \<Rightarrow> shared \<Rightarrow> 'c heap \<Rightarrow> fault + shared \<times> 'c heap" where
  "reset newPtr this h =
     (case release this h of
        Inl f \<Rightarrow> Inl f
      | Inr (this1, h1) \<Rightarrow>
          if newPtr \<noteq> 0 then
            (case new_int 1 h1 of (c, h2) \<Rightarrow> Inr (this1\<lparr>ptr := newPtr, refCount := c\<rparr>, h2))
          else Inr (this1\<lparr>ptr := 0, refCount := 0\<rparr>, h1))"

text \<open>
  \<open>dynamic_pointer_cast<U>() const\<close>: a \<open>const\<close> member, so \<open>this\<close> is not written.
\<close>

definition dynamic_pointer_cast :: "'c \<Rightarrow> shared \<Rightarrow> 'c heap \<Rightarrow> fault + shared \<times> 'c heap" where
  "dynamic_pointer_cast U this h =
     (case dynamic_cast U (ptr this) h of
        Inl f \<Rightarrow> Inl f
      | Inr castedPtr \<Rightarrow>
          if castedPtr \<noteq> 0 then TSharedPointer_alias castedPtr (refCount this) h
          else Inr (TSharedPointer_default, h))"

text \<open>\<open>MakeShared<T>(args...)\<close>: \<open>TSharedPointer<T>(new T(...))\<close>.\<close>

definition MakeShared :: "'c list \<Rightarrow> 'c heap \<Rightarrow> shared \<times> 'c heap" where
  "MakeShared classes h = (case new_obj classes h of (p, h') \<Rightarrow> TSharedPointer_raw p h')"

section \<open>Programs over shared handles\<close>

text \<open>
  A client program is a sequence of operations on handle variables. A state holds the free
  store and the handle variables: variable \<open>i\<close> is \<open>vars ! i\<close>, \<open>None\<close> once it has been
  destroyed. A constructor adds a variable at the end. The operators compare the addresses
  of the two handle objects (\<open>this != &other\<close>): here, the two indices.
\<close>

record 'c state =
  free_store :: "'c heap"
  vars :: "shared option list"

datatype 'c op =
    New "'c list"
  | Default
  | FromRaw addr
  | Copy nat
  | Move nat
  | CopyAssign nat nat
  | MoveAssign nat nat
  | Reset nat addr
  | Swap nat nat
  | Destroy nat

definition var :: "'c state \<Rightarrow> nat \<Rightarrow> shared option" where
  "var s i = (if i < length (vars s) then vars s ! i else None)"

fun step :: "'c op \<Rightarrow> 'c state \<Rightarrow> fault + 'c state" where
  "step (New classes) s = (case new_obj classes (free_store s) of (p, h) \<Rightarrow> Inr (s\<lparr>free_store := h\<rparr>))"
| "step Default s = Inr (s\<lparr>vars := vars s @ [Some TSharedPointer_default]\<rparr>)"
| "step (FromRaw rawPtr) s =
     (case TSharedPointer_raw rawPtr (free_store s) of
        (this, h) \<Rightarrow> Inr \<lparr>free_store = h, vars = vars s @ [Some this]\<rparr>)"
| "step (Copy j) s =
     (case var s j of
        None \<Rightarrow> Inl DeadHandle
      | Some other \<Rightarrow>
          (case TSharedPointer_copy other (free_store s) of
             Inl f \<Rightarrow> Inl f
           | Inr (this, h) \<Rightarrow> Inr \<lparr>free_store = h, vars = vars s @ [Some this]\<rparr>))"
| "step (Move j) s =
     (case var s j of
        None \<Rightarrow> Inl DeadHandle
      | Some other \<Rightarrow>
          (case TSharedPointer_move other of
             (this, other') \<Rightarrow> Inr (s\<lparr>vars := (vars s)[j := Some other'] @ [Some this]\<rparr>)))"
| "step (CopyAssign i j) s =
     (case var s i of
        None \<Rightarrow> Inl DeadHandle
      | Some this \<Rightarrow>
          (case var s j of
             None \<Rightarrow> Inl DeadHandle
           | Some other \<Rightarrow>
               if i \<noteq> j then
                 (case copy_assign this other (free_store s) of
                    Inl f \<Rightarrow> Inl f
                  | Inr (this', h) \<Rightarrow> Inr \<lparr>free_store = h, vars = (vars s)[i := Some this']\<rparr>)
               else Inr s))"
| "step (MoveAssign i j) s =
     (case var s i of
        None \<Rightarrow> Inl DeadHandle
      | Some this \<Rightarrow>
          (case var s j of
             None \<Rightarrow> Inl DeadHandle
           | Some other \<Rightarrow>
               if i \<noteq> j then
                 (case move_assign this other (free_store s) of
                    Inl f \<Rightarrow> Inl f
                  | Inr ((this', other'), h) \<Rightarrow>
                      Inr \<lparr>free_store = h, vars = (vars s)[i := Some this', j := Some other']\<rparr>)
               else Inr s))"
| "step (Reset i newPtr) s =
     (case var s i of
        None \<Rightarrow> Inl DeadHandle
      | Some this \<Rightarrow>
          (case reset newPtr this (free_store s) of
             Inl f \<Rightarrow> Inl f
           | Inr (this', h) \<Rightarrow> Inr \<lparr>free_store = h, vars = (vars s)[i := Some this']\<rparr>))"
| "step (Swap i j) s =
     (case var s i of
        None \<Rightarrow> Inl DeadHandle
      | Some this \<Rightarrow>
          (case var s j of
             None \<Rightarrow> Inl DeadHandle
           | Some other \<Rightarrow>
               (case swap this other of
                  (this', other') \<Rightarrow> Inr (s\<lparr>vars := (vars s)[i := Some this', j := Some other']\<rparr>))))"
| "step (Destroy i) s =
     (case var s i of
        None \<Rightarrow> Inl DeadHandle
      | Some this \<Rightarrow>
          (case release this (free_store s) of
             Inl f \<Rightarrow> Inl f
           | Inr (this', h) \<Rightarrow> Inr \<lparr>free_store = h, vars = (vars s)[i := None]\<rparr>))"

text \<open>The states a program goes through, one after each operation.\<close>

fun run :: "'c op list \<Rightarrow> 'c state \<Rightarrow> fault + 'c state list" where
  "run [] s = Inr []"
| "run (x # xs) s =
     (case step x s of
        Inl f \<Rightarrow> Inl f
      | Inr s' \<Rightarrow> (case run xs s' of Inl f \<Rightarrow> Inl f | Inr ss \<Rightarrow> Inr (s' # ss)))"

definition init :: "'c state" where
  "init = \<lparr>free_store = empty_heap, vars = []\<rparr>"

text \<open>
  What a program may do. It names only handle variables that are alive; a raw pointer it
  hands to a handle is null or points to an object that is alive and that no handle
  owns; and it does not copy a handle whose count is already \<open>INT_MAX\<close>.
\<close>

definition count_at :: "'c heap \<Rightarrow> addr \<Rightarrow> int" where
  "count_at h c = (case slot_at h c of Some (Cell n) \<Rightarrow> n | _ \<Rightarrow> 0)"

definition is_object :: "'c heap \<Rightarrow> addr \<Rightarrow> bool" where
  "is_object h p = (case slot_at h p of Some (Obj cs) \<Rightarrow> True | _ \<Rightarrow> False)"

fun target_of :: "shared option \<Rightarrow> addr" where
  "target_of None = 0"
| "target_of (Some this) = ptr this"

fun count_of :: "shared option \<Rightarrow> addr" where
  "count_of None = 0"
| "count_of (Some this) = refCount this"

definition targets :: "'c state \<Rightarrow> addr list" where
  "targets s = map target_of (vars s)"

definition counts :: "'c state \<Rightarrow> addr list" where
  "counts s = map count_of (vars s)"

definition unowned :: "'c state \<Rightarrow> addr \<Rightarrow> bool" where
  "unowned s p = (is_object (free_store s) p \<and> p \<notin> set (targets s))"

fun admissible :: "'c state \<Rightarrow> 'c op \<Rightarrow> bool" where
  "admissible s (New classes) = True"
| "admissible s Default = True"
| "admissible s (FromRaw rawPtr) = (rawPtr = 0 \<or> unowned s rawPtr)"
| "admissible s (Copy j) =
     (case var s j of None \<Rightarrow> False | Some other \<Rightarrow> count_at (free_store s) (refCount other) < INT_MAX)"
| "admissible s (Move j) = (var s j \<noteq> None)"
| "admissible s (CopyAssign i j) =
     (var s i \<noteq> None \<and>
      (case var s j of None \<Rightarrow> False | Some other \<Rightarrow> count_at (free_store s) (refCount other) < INT_MAX))"
| "admissible s (MoveAssign i j) = (var s i \<noteq> None \<and> var s j \<noteq> None)"
| "admissible s (Reset i newPtr) = (var s i \<noteq> None \<and> (newPtr = 0 \<or> unowned s newPtr))"
| "admissible s (Swap i j) = (var s i \<noteq> None \<and> var s j \<noteq> None)"
| "admissible s (Destroy i) = (var s i \<noteq> None)"

text \<open>
  A program is admissible from a state when each operation is admissible in the state it
  runs in (nothing is asked of what follows a fault).
\<close>

fun admissible_run :: "'c op list \<Rightarrow> 'c state \<Rightarrow> bool" where
  "admissible_run [] s = True"
| "admissible_run (x # xs) s =
     (admissible s x \<and> (case step x s of Inl f \<Rightarrow> True | Inr s' \<Rightarrow> admissible_run xs s'))"

text \<open>
  The ownership invariant. The live handles of a group are the handle variables whose
  \<open>refCount\<close> is the group's count cell.
  \<^item> \<open>counted\<close>: every live count cell holds the number of live handles of its group,
    which is at least one;
  \<^item> \<open>anchored\<close>: a live handle's count pointer is null or points to a live count cell,
    and its target pointer is null or points to a live object and comes with a count;
  \<^item> \<open>grouped\<close>: two live handles with the same non-null target share their count;
  \<^item> \<open>logged\<close>: the log of deletions has no address twice and lists the freed slots.
\<close>

definition handles_of :: "'c state \<Rightarrow> addr \<Rightarrow> nat" where
  "handles_of s c = count_list (counts s) c"

definition counted :: "'c state \<Rightarrow> bool" where
  "counted s = (\<forall>c n. slot_at (free_store s) c = Some (Cell n) \<longrightarrow>
     n = int (handles_of s c) \<and> 0 < handles_of s c)"

definition anchored_in :: "'c heap \<Rightarrow> shared \<Rightarrow> bool" where
  "anchored_in h this =
     ((refCount this \<noteq> 0 \<longrightarrow> (\<exists>n. slot_at h (refCount this) = Some (Cell n))) \<and>
      (ptr this \<noteq> 0 \<longrightarrow> refCount this \<noteq> 0 \<and> is_object h (ptr this)))"

definition anchored :: "'c state \<Rightarrow> bool" where
  "anchored s = (\<forall>this. Some this \<in> set (vars s) \<longrightarrow> anchored_in (free_store s) this)"

definition grouped :: "'c state \<Rightarrow> bool" where
  "grouped s = (\<forall>this other. Some this \<in> set (vars s) \<longrightarrow> Some other \<in> set (vars s) \<longrightarrow>
     ptr this \<noteq> 0 \<longrightarrow> ptr this = ptr other \<longrightarrow> refCount this = refCount other)"

definition logged :: "'c heap \<Rightarrow> bool" where
  "logged h = (distinct (freed h) \<and> (\<forall>a. a \<in> set (freed h) \<longleftrightarrow> slot_at h a = Some Freed))"

definition invariant :: "'c state \<Rightarrow> bool" where
  "invariant s = (counted s \<and> anchored s \<and> grouped s \<and> logged (free_store s))"

text \<open>
  \<open>kept h h' a\<close>: the slot at \<open>a\<close> is in \<open>h'\<close> what it is in \<open>h\<close>, up to the value of a count.
  \<open>quiet h h'\<close>: from \<open>h\<close> to \<open>h'\<close> nothing is deleted; slots may be added and counts may
  change.
\<close>

definition kept :: "'c heap \<Rightarrow> 'c heap \<Rightarrow> addr \<Rightarrow> bool" where
  "kept h h' a =
     (case slot_at h a of
        Some (Cell n) \<Rightarrow> (\<exists>m. slot_at h' a = Some (Cell m))
      | x \<Rightarrow> slot_at h' a = x)"

definition quiet :: "'c heap \<Rightarrow> 'c heap \<Rightarrow> bool" where
  "quiet h h' =
     (freed h' = freed h \<and> length (mem h) \<le> length (mem h') \<and>
      (\<forall>a. a \<le> length (mem h) \<longrightarrow> kept h h' a) \<and>
      (\<forall>a. length (mem h) < a \<longrightarrow> slot_at h' a \<noteq> Some Freed))"

text \<open>
  What one operation frees, from the state \<open>s\<close> before it to the state \<open>s'\<close> after it.
  \<open>frees_only\<close> is the part that looks at the store after the operation alone:
  \<^item> a slot keeps its kind, or is freed, and the log of deletions only grows;
  \<^item> a count cell that is freed held 1;
  \<^item> the target of a live handle is freed exactly when the handle's count cell is;
  \<^item> an object that no handle owns is left alone.

  \<open>frees_at_zero\<close> adds the handles of the state after: a live count cell is freed by the
  operation exactly when it held 1 and no handle refers to it any more, that is, when the
  count goes from 1 to 0.
\<close>

definition frees_only :: "'c state \<Rightarrow> 'c heap \<Rightarrow> bool" where
  "frees_only s h' =
     ((\<forall>a. a \<le> length (mem (free_store s)) \<longrightarrow>
         slot_at h' a = Some Freed \<or> kept (free_store s) h' a) \<and>
      length (mem (free_store s)) \<le> length (mem h') \<and>
      (\<exists>new. freed h' = freed (free_store s) @ new) \<and>
      (\<forall>c n. slot_at (free_store s) c = Some (Cell n) \<longrightarrow> slot_at h' c = Some Freed \<longrightarrow> n = 1) \<and>
      (\<forall>this. Some this \<in> set (vars s) \<longrightarrow> ptr this \<noteq> 0 \<longrightarrow>
         (slot_at h' (ptr this) = Some Freed \<longleftrightarrow> slot_at h' (refCount this) = Some Freed)) \<and>
      (\<forall>p. unowned s p \<longrightarrow> is_object h' p))"

definition frees_at_zero :: "'c state \<Rightarrow> 'c state \<Rightarrow> bool" where
  "frees_at_zero s s' =
     (frees_only s (free_store s') \<and>
      (\<forall>c n. slot_at (free_store s) c = Some (Cell n) \<longrightarrow>
         (slot_at (free_store s') c = Some Freed \<longleftrightarrow> n = 1 \<and> handles_of s' c = 0)))"

section \<open>TWeakPointer\<close>

record weak =
  wptr :: addr
  wrefCount :: addr

text \<open>
  \<open>TWeakPointer()\<close>. The other constructor, \<open>TWeakPointer(const TSharedPointer<T>&)\<close>,
  reads the private members \<open>ptr\<close> and \<open>refCount\<close> of \<open>TSharedPointer\<close>, which does not
  declare \<open>TWeakPointer\<close> a friend: no program that compiles calls it, and it has no
  definition here. A weak handle of a program is the empty one or a copy of it.
\<close>

definition TWeakPointer_default :: weak where
  "TWeakPointer_default = \<lparr>wptr = 0, wrefCount = 0\<rparr>"

text \<open>
  \<open>lock() const\<close>:
  \<^verbatim>\<open>if (refCount && *refCount > 0) return TSharedPointer<T>(ptr, refCount);
  return TSharedPointer<T>();\<close>
\<close>

definition lock :: "weak \<Rightarrow> 'c heap \<Rightarrow> fault + shared \<times> 'c heap" where
  "lock this h =
     (if wrefCount this \<noteq> 0 then
        (case read_cell h (wrefCount this) of
           Inl f \<Rightarrow> Inl f
         | Inr n \<Rightarrow>
             if n > 0 then TSharedPointer_alias (wptr this) (wrefCount this) h
             else Inr (TSharedPointer_default, h))
      else Inr (TSharedPointer_default, h))"

section \<open>TUniquePtr and TStaticPtr\<close>

text \<open>
  Both classes own a single raw pointer. Their states carry, beside the free store, a
  history of the two kinds of effect the ownership claims order: a \<open>delete\<close> and the
  assignment that makes a handle own a pointer.
\<close>

datatype event = Deleted addr | Adopted addr

record 'c owned =
  store :: "'c heap"
  history :: "event list"

text \<open>\<open>delete p\<close> on such a state.\<close>

definition delete_owned :: "addr \<Rightarrow> 'c owned \<Rightarrow> fault + 'c owned" where
  "delete_owned p s =
     (case delete_obj p (store s) of
        Inl f \<Rightarrow> Inl f
      | Inr h \<Rightarrow> Inr (s\<lparr>store := h, history := history s @ (if p = 0 then [] else [Deleted p])\<rparr>))"

record unique =
  uptr :: addr

text \<open>\<open>TUniquePtr()\<close>, \<open>TUniquePtr(T* rawPtr)\<close> and the move constructor.\<close>

definition TUniquePtr_default :: unique where
  "TUniquePtr_default = \<lparr>uptr = 0\<rparr>"

definition TUniquePtr_raw :: "addr \<Rightarrow> 'c owned \<Rightarrow> unique \<times> 'c owned" where
  "TUniquePtr_raw rawPtr s = (\<lparr>uptr = rawPtr\<rparr>, s\<lparr>history := history s @ [Adopted rawPtr]\<rparr>)"

definition TUniquePtr_move :: "unique \<Rightarrow> 'c owned \<Rightarrow> (unique \<times> unique) \<times> 'c owned" where
  "TUniquePtr_move other s =
     ((\<lparr>uptr = uptr other\<rparr>, other\<lparr>uptr := 0\<rparr>), s\<lparr>history := history s @ [Adopted (uptr other)]\<rparr>)"


text \<open>The destructor, \<open>get\<close>, \<open>release\<close>, \<open>reset\<close> and \<open>isNull\<close>.\<close>

definition TUniquePtr_dtor :: "unique \<Rightarrow> 'c owned \<Rightarrow> fault + 'c owned" where
  "TUniquePtr_dtor this s = delete_owned (uptr this) s"


definition TUniquePtr_release :: "unique \<Rightarrow> addr \<times> unique" where
  "TUniquePtr_release this = (let oldPtr = uptr this in (oldPtr, this\<lparr>uptr := 0\<rparr>))"

definition TUniquePtr_reset :: "addr \<Rightarrow> unique \<Rightarrow> 'c owned \<Rightarrow> fault + unique \<times> 'c owned" where
  "TUniquePtr_reset rawPtr this s =
     (case delete_owned (uptr this) s of
        Inl f \<Rightarrow> Inl f
      | Inr s1 \<Rightarrow> Inr (this\<lparr>uptr := rawPtr\<rparr>, s1\<lparr>history := history s1 @ [Adopted rawPtr]\<rparr>))"


text \<open>
  \<open>TStaticPtr<T>\<close>: the one \<open>static T* instance\<close> of the instantiation at \<open>T\<close>, with the
  state it lives in.
\<close>

record 'c static = "'c owned" +
  instance_T :: addr

text \<open>
  \<open>static void reset(T* rawPtr = nullptr)\<close>:
  \<^verbatim>\<open>if (instance != nullptr) { delete instance; } instance = rawPtr;\<close>
  The constructor from a raw pointer has the same body.
\<close>

definition TStaticPtr_reset :: "addr \<Rightarrow> 'c static \<Rightarrow> fault + 'c static" where
  "TStaticPtr_reset rawPtr s =
     (case (if instance_T s \<noteq> 0 then delete_obj (instance_T s) (store s) else Inr (store s)) of
        Inl f \<Rightarrow> Inl f
      | Inr h \<Rightarrow>
          Inr (s\<lparr>store := h,
                 history := history s @ (if instance_T s \<noteq> 0 then [Deleted (instance_T s)] else [])
                              @ [Adopted rawPtr],
                 instance_T := rawPtr\<rparr>))"

definition TStaticPtr_raw :: "addr \<Rightarrow> 'c static \<Rightarrow> fault + 'c static" where
  "TStaticPtr_raw rawPtr s = TStaticPtr_reset rawPtr s"

text \<open>The destructor, \<open>get\<close> and \<open>isNull\<close>.\<close>

definition TStaticPtr_dtor :: "'c static \<Rightarrow> fault + 'c static" where
  "TStaticPtr_dtor s =
     (if instance_T s \<noteq> 0 then
        (case delete_obj (instance_T s) (store s) of
           Inl f \<Rightarrow> Inl f
         | Inr h \<Rightarrow>
             Inr (s\<lparr>store := h, history := history s @ [Deleted (instance_T s)], instance_T := 0\<rparr>))
      else Inr s)"

definition TStaticPtr_get :: "'c static \<Rightarrow> addr" where
  "TStaticPtr_get s = instance_T s"

definition TStaticPtr_isNull :: "'c static \<Rightarrow> bool" where
  "TStaticPtr_isNull s = (instance_T s = 0)"

section \<open>Entity, Actor and their components\<close>

text \<open>
  The classes of the component framework; \<open>UserComponent\<close> stands for any component
  class declared outside these sources (\<open>addComponent\<close> asserts that the class derives from
  \<open>Component\<close>). \<open>classes_of\<close> lists what an object of a class is an instance of
  (\<open>class CShape : public Component\<close>, \<open>class Transform : public Component\<close>).
\<close>

datatype class_id = Component | CShape | Transform | UserComponent string

fun classes_of :: "class_id \<Rightarrow> class_id list" where
  "classes_of Component = [Component]"
| "classes_of CShape = [CShape, Component]"
| "classes_of Transform = [Transform, Component]"
| "classes_of (UserComponent name) = [UserComponent name, Component]"

record entity =
  isActive :: bool
  id :: "32 word"
  components :: "shared list"

record actor = entity +
  m_name :: string

text \<open>
  \<open>Entity::addComponent<T>(TSharedPointer<T> component)\<close>:
  \<^verbatim>\<open>components.push_back(component.template dynamic_pointer_cast<Component>());\<close>
  The argument is passed by value (\<open>arg\<close> is the caller's handle, copied into the
  parameter); the temporary that the cast returns is moved into the vector; then the
  temporary and the parameter are destroyed.
\<close>

definition addComponent ::
  "shared \<Rightarrow> 'a entity_scheme \<Rightarrow> class_id heap \<Rightarrow> fault + 'a entity_scheme \<times> class_id heap" where
  "addComponent arg this h =
     (case TSharedPointer_copy arg h of
        Inl f \<Rightarrow> Inl f
      | Inr (component, h1) \<Rightarrow>
          (case dynamic_pointer_cast Component component h1 of
             Inl f \<Rightarrow> Inl f
           | Inr (tmp, h2) \<Rightarrow>
               (case TSharedPointer_move tmp of
                  (element, tmp') \<Rightarrow>
                    (case release tmp' h2 of
                       Inl f \<Rightarrow> Inl f
                     | Inr (tmp'', h3) \<Rightarrow>
                         (case release component h3 of
                            Inl f \<Rightarrow> Inl f
                          | Inr (component', h4) \<Rightarrow>
                              Inr (this\<lparr>components := components this @ [element]\<rparr>, h4))))))"

text \<open>
  \<open>Entity::getComponent<T>()\<close> and \<open>Actor::getComponent<T>()\<close> (the same loop): the handle
  the cast returns is returned when it is non-null, and destroyed at the end of the
  iteration otherwise.
\<close>

fun getComponent_loop :: "class_id \<Rightarrow> shared list \<Rightarrow> class_id heap \<Rightarrow> fault + shared \<times> class_id heap" where
  "getComponent_loop T [] h = Inr (TSharedPointer_default, h)"
| "getComponent_loop T (component # rest) h =
     (case dynamic_pointer_cast T component h of
        Inl f \<Rightarrow> Inl f
      | Inr (specificComponent, h1) \<Rightarrow>
          if to_bool specificComponent then Inr (specificComponent, h1)
          else (case release specificComponent h1 of
                  Inl f \<Rightarrow> Inl f
                | Inr (gone, h2) \<Rightarrow> getComponent_loop T rest h2))"

definition Entity_getComponent ::
  "class_id \<Rightarrow> 'a entity_scheme \<Rightarrow> class_id heap \<Rightarrow> fault + shared \<times> class_id heap" where
  "Entity_getComponent T this h = getComponent_loop T (components this) h"

definition Actor_getComponent ::
  "class_id \<Rightarrow> actor \<Rightarrow> class_id heap \<Rightarrow> fault + shared \<times> class_id heap" where
  "Actor_getComponent T this h = getComponent_loop T (components this) h"

text \<open>
  \<open>Actor::Actor(const std::string& actorName)\<close>: the members take their default
  initialisers, then the body runs; the two local handles are destroyed when it ends, in
  the reverse order of their declaration.
\<close>

definition Actor_ctor :: "string \<Rightarrow> class_id heap \<Rightarrow> fault + actor \<times> class_id heap" where
  "Actor_ctor actorName h =
     (let this0 = \<lparr>isActive = True, id = 0, components = [], m_name = ''Actor''\<rparr>;
          this1 = this0\<lparr>m_name := actorName\<rparr>
      in case MakeShared (classes_of CShape) h of
        (shape, h1) \<Rightarrow>
          (case addComponent shape this1 h1 of
             Inl f \<Rightarrow> Inl f
           | Inr (this2, h2) \<Rightarrow>
               (case MakeShared (classes_of Transform) h2 of
                  (transform, h3) \<Rightarrow>
                    (case addComponent transform this2 h3 of
                       Inl f \<Rightarrow> Inl f
                     | Inr (this3, h4) \<Rightarrow>
                         (case release transform h4 of
                            Inl f \<Rightarrow> Inl f
                          | Inr (transform', h5) \<Rightarrow>
                              (case release shape h5 of
                                 Inl f \<Rightarrow> Inl f
                               | Inr (shape', h6) \<Rightarrow> Inr (this3, h6)))))))"

section \<open>Floats, Vector2f and Transform\<close>

text \<open>
  \<open>Transform::seek\<close> computes with \<open>float\<close> (IEEE-754 binary32). The model covers the part of
  that arithmetic that needs no rounding. A value is an integer of magnitude at most
  \<open>2^24\<close> (\<open>fits\<close>; binary32 holds each of them exactly, the two zeros taken as one) or
  \<open>NaN\<close>. An operation returns \<open>Some\<close> of its result when the exact result is such a value,
  which binary32 arithmetic then returns too, and when the result is \<open>NaN\<close> (an operand is
  \<open>NaN\<close>, \<open>0 / 0\<close>, the square root of a negative number); it returns \<open>None\<close> where the
  result is rounded or infinite, about which this model says nothing. A comparison with
  \<open>NaN\<close> is false.
\<close>

datatype float = Exact int | NaN











text \<open>
  \<open>sf::Vector2f\<close> (its members \<open>x\<close> and \<open>y\<close> are the fields \<open>vx\<close> and \<open>vy\<close>) with the
  operators that \<open>seek\<close> uses: \<open>a - b\<close>, \<open>v / f\<close> (as in \<open>v /= f\<close>), \<open>v * f\<close> and \<open>a + b\<close> (as in
  \<open>a += b\<close>), each component by component.
\<close>

record Vector2f =
  vx :: float
  vy :: float





text \<open>The \<open>Transform\<close> component with its constructor.\<close>

record transform =
  m_position :: Vector2f
  m_rotation :: Vector2f
  m_scale :: Vector2f



section \<open>Specification vocabulary\<close>

text \<open>
  \<open>instance_of h U p\<close>: \<open>p\<close> points to a live object whose dynamic class is \<open>U\<close> or derives
  from \<open>U\<close>. \<open>usable h this\<close>: the handle is empty, or its target is a live object and its
  count cell is alive and can still be incremented.
\<close>

definition instance_of :: "'c heap \<Rightarrow> 'c \<Rightarrow> addr \<Rightarrow> bool" where
  "instance_of h U p = (case slot_at h p of Some (Obj cs) \<Rightarrow> U \<in> set cs | _ \<Rightarrow> False)"


definition usable :: "'c heap \<Rightarrow> shared \<Rightarrow> bool" where
  "usable h this =
     (ptr this = 0 \<or>
      (is_object h (ptr this) \<and>
       (case slot_at h (refCount this) of Some (Cell n) \<Rightarrow> n < INT_MAX | _ \<Rightarrow> False)))"

section \<open>The free store: basic facts\<close>

lemma slot_at_null [simp]: "slot_at h 0 = None"
  by (simp add: slot_at_def)

lemma slot_at_SomeD: "slot_at h a = Some x \<Longrightarrow> a \<noteq> 0 \<and> a \<le> length (mem h)"
  by (auto simp: slot_at_def split: if_splits)

lemma slot_at_write_cell:
  "slot_at (write_cell c m h) a =
     (if a = c \<and> slot_at h c \<noteq> None then Some (Cell m) else slot_at h a)"
  by (auto simp: slot_at_def write_cell_def nth_list_update)

lemma freed_write_cell [simp]: "freed (write_cell c m h) = freed h"
  by (simp add: write_cell_def)

lemma length_write_cell [simp]: "length (mem (write_cell c m h)) = length (mem h)"
  by (simp add: write_cell_def)

lemma slot_at_free_slot:
  "p \<noteq> 0 \<Longrightarrow> slot_at (free_slot p h) a =
     (if a = p \<and> slot_at h p \<noteq> None then Some Freed else slot_at h a)"
  by (auto simp: slot_at_def free_slot_def nth_list_update)

lemma freed_free_slot [simp]: "freed (free_slot p h) = freed h @ [p]"
  by (simp add: free_slot_def)

lemma length_free_slot [simp]: "length (mem (free_slot p h)) = length (mem h)"
  by (simp add: free_slot_def)

lemma read_cell_live: "slot_at h c = Some (Cell n) \<Longrightarrow> read_cell h c = Inr n"
  by (simp add: read_cell_def)

lemma delete_obj_live: "slot_at h p = Some (Obj cs) \<Longrightarrow> delete_obj p h = Inr (free_slot p h)"
  by (auto simp: delete_obj_def)

lemma delete_int_live: "slot_at h p = Some (Cell n) \<Longrightarrow> delete_int p h = Inr (free_slot p h)"
  by (auto simp: delete_int_def)

section \<open>What release does\<close>

lemma null_fields [simp]: "(this::shared)\<lparr>ptr := 0, refCount := 0\<rparr> = TSharedPointer_default"
  by (simp add: TSharedPointer_default_def)

lemma release_empty:
  "refCount this = 0 \<Longrightarrow> release this h = Inr (TSharedPointer_default, h)"
  by (simp add: release_def)

lemma release_shared:
  "slot_at h (refCount this) = Some (Cell n) \<Longrightarrow> n \<noteq> 1 \<Longrightarrow> n \<noteq> INT_MIN \<Longrightarrow>
   release this h = Inr (TSharedPointer_default, write_cell (refCount this) (n - 1) h)"
  using slot_at_SomeD [of h "refCount this"] by (simp add: release_def read_cell_live Let_def)

lemma release_last_null:
  assumes "slot_at h (refCount this) = Some (Cell 1)" and "ptr this = 0"
  shows "release this h =
     Inr (TSharedPointer_default, free_slot (refCount this) (write_cell (refCount this) 0 h))"
proof -
  have rc: "refCount this \<noteq> 0" using assms(1) by (auto simp: slot_at_def split: if_splits)
  have "slot_at (write_cell (refCount this) 0 h) (refCount this) = Some (Cell 0)"
    using assms(1) by (simp add: slot_at_write_cell)
  then have "delete_int (refCount this) (write_cell (refCount this) 0 h)
      = Inr (free_slot (refCount this) (write_cell (refCount this) 0 h))"
    by (rule delete_int_live)
  then show ?thesis
    using assms rc by (simp add: release_def read_cell_live Let_def INT_MIN_def delete_obj_def)
qed

lemma release_last_obj:
  assumes "slot_at h (refCount this) = Some (Cell 1)" and "slot_at h (ptr this) = Some (Obj cs)"
  shows "release this h =
     Inr (TSharedPointer_default,
          free_slot (refCount this) (free_slot (ptr this) (write_cell (refCount this) 0 h)))"
proof -
  let ?h1 = "write_cell (refCount this) 0 h"
  have rc: "refCount this \<noteq> 0" using assms(1) by (auto simp: slot_at_def split: if_splits)
  have p: "ptr this \<noteq> 0" using assms(2) by (auto simp: slot_at_def split: if_splits)
  have ne: "ptr this \<noteq> refCount this" using assms by auto
  have "slot_at ?h1 (ptr this) = Some (Obj cs)"
    using assms ne by (simp add: slot_at_write_cell)
  then have d1: "delete_obj (ptr this) ?h1 = Inr (free_slot (ptr this) ?h1)"
    by (rule delete_obj_live)
  have "slot_at (free_slot (ptr this) ?h1) (refCount this) = Some (Cell 0)"
    using assms ne p by (simp add: slot_at_free_slot slot_at_write_cell)
  then have d2: "delete_int (refCount this) (free_slot (ptr this) ?h1)
      = Inr (free_slot (refCount this) (free_slot (ptr this) ?h1))"
    by (rule delete_int_live)
  show ?thesis
    using assms(1) rc d1 d2 by (simp add: release_def read_cell_live Let_def INT_MIN_def)
qed

lemma incr_if_null: "incr_if 0 h = Inr h"
  by (simp add: incr_if_def)

lemma incr_if_live:
  "slot_at h rc = Some (Cell n) \<Longrightarrow> n \<noteq> INT_MAX \<Longrightarrow> incr_if rc h = Inr (write_cell rc (n + 1) h)"
  using slot_at_SomeD [of h rc] by (simp add: incr_if_def read_cell_live)

lemma default_fields [simp]:
  "ptr TSharedPointer_default = 0" "refCount TSharedPointer_default = 0"
  "TSharedPointer_default\<lparr>ptr := a, refCount := b\<rparr> = \<lparr>ptr = a, refCount = b\<rparr>"
  by (simp_all add: TSharedPointer_default_def)

lemma release_default:
  "release TSharedPointer_default h = Inr (TSharedPointer_default, h)"
  by (simp add: release_def TSharedPointer_default_def)

lemma release_total:
  assumes "refCount this = 0 \<or>
     (\<exists>n. slot_at h (refCount this) = Some (Cell n) \<and> n \<noteq> INT_MIN \<and>
          (n = 1 \<longrightarrow> ptr this = 0 \<or> is_object h (ptr this)))"
  shows "\<exists>h'. release this h = Inr (TSharedPointer_default, h')"
proof (cases "refCount this = 0")
  case True
  then show ?thesis by (simp add: release_empty)
next
  case False
  then obtain n where n: "slot_at h (refCount this) = Some (Cell n)" "n \<noteq> INT_MIN"
    "n = 1 \<longrightarrow> ptr this = 0 \<or> is_object h (ptr this)"
    using assms by auto
  show ?thesis
  proof (cases "n = 1")
    case False
    with n show ?thesis by (simp add: release_shared)
  next
    case True
    show ?thesis
    proof (cases "ptr this = 0")
      case True
      with n \<open>n = 1\<close> show ?thesis by (simp add: release_last_null)
    next
      case False
      with n \<open>n = 1\<close> obtain cs where "slot_at h (ptr this) = Some (Obj cs)"
        by (auto simp: is_object_def split: option.splits slot.splits)
      with n \<open>n = 1\<close> show ?thesis by (simp add: release_last_obj)
    qed
  qed
qed

text \<open>
  Claim C5, as amended. The internal \<open>release\<close> (which is all the destructor runs, and with
  which \<open>reset\<close> and the assignments from another handle object begin) returns for every
  handle that is empty or whose count cell is alive (and whose target, when the count is 1,
  is null or alive), and leaves the handle's target and count fields null whether or not
  the count reached zero; releasing that handle again changes nothing, so one handle
  cannot free a target or a count twice. After \<open>reset(nullptr)\<close> the fields are still null;
  \<open>reset(p)\<close> with a non-null \<open>p\<close>, move assignment and copy assignment then store the
  adopted target and count.
\<close>

theorem release_nulls_then_adopts:
  assumes "refCount this = 0 \<or>
     (\<exists>n. slot_at h (refCount this) = Some (Cell n) \<and> n \<noteq> INT_MIN \<and>
          (n = 1 \<longrightarrow> ptr this = 0 \<or> is_object h (ptr this)))"
  shows "\<exists>this' h'. release this h = Inr (this', h') \<and> ptr this' = 0 \<and> refCount this' = 0 \<and>
     release this' h' = Inr (this', h') \<and>
     reset 0 this h = Inr (this', h') \<and>
     (newPtr \<noteq> 0 \<longrightarrow> reset newPtr this h =
        Inr (\<lparr>ptr = newPtr, refCount = Suc (length (mem h'))\<rparr>, h'\<lparr>mem := mem h' @ [Cell 1]\<rparr>)) \<and>
     move_assign this other h =
        Inr ((\<lparr>ptr = ptr other, refCount = refCount other\<rparr>, TSharedPointer_default), h') \<and>
     copy_assign this other h =
        (case incr_if (refCount other) h' of
           Inl f \<Rightarrow> Inl f
         | Inr h'' \<Rightarrow> Inr (\<lparr>ptr = ptr other, refCount = refCount other\<rparr>, h''))"
proof -
  from release_total [OF assms] obtain h' where
    r: "release this h = Inr (TSharedPointer_default, h')" by blast
  show ?thesis
    using r
    by (simp add: release_default reset_def move_assign_def copy_assign_def new_int_def
        split: sum.splits)
qed

text \<open>The definitions a concrete evaluation unfolds.\<close>

lemmas store_defs = slot_at_def read_cell_def write_cell_def new_obj_def new_int_def free_slot_def
  delete_obj_def delete_int_def dynamic_cast_def INT_MAX_def INT_MIN_def count_at_def is_object_def
  empty_heap_def

lemmas shared_defs = TSharedPointer_default_def TSharedPointer_raw_def incr_if_def
  TSharedPointer_alias_def TSharedPointer_copy_def TSharedPointer_move_def release_def
  copy_assign_def move_assign_def reset_def dynamic_pointer_cast_def MakeShared_def
  to_bool_def isNull_def get_def swap_def TWeakPointer_default_def lock_def

text \<open>
  Witness for C5: a handle of a group of two, released, and copy-assigned from a handle that
  owns another object.
\<close>

theorem release_nulls_then_adopts_witness:
  "slot_at \<lparr>mem = [Obj [Transform, Component], Cell 2, Obj [CShape, Component], Cell 1], freed = []\<rparr> 2
     = Some (Cell 2) \<and>
   release \<lparr>ptr = 1, refCount = 2\<rparr>
      \<lparr>mem = [Obj [Transform, Component], Cell 2, Obj [CShape, Component], Cell 1], freed = []\<rparr>
     = Inr (\<lparr>ptr = 0, refCount = 0\<rparr>,
        \<lparr>mem = [Obj [Transform, Component], Cell 1, Obj [CShape, Component], Cell 1], freed = []\<rparr>) \<and>
   copy_assign \<lparr>ptr = 1, refCount = 2\<rparr> \<lparr>ptr = 3, refCount = 4\<rparr>
      \<lparr>mem = [Obj [Transform, Component], Cell 2, Obj [CShape, Component], Cell 1], freed = []\<rparr>
     = Inr (\<lparr>ptr = 3, refCount = 4\<rparr>,
        \<lparr>mem = [Obj [Transform, Component], Cell 1, Obj [CShape, Component], Cell 2], freed = []\<rparr>)"
  using release_nulls_then_adopts [of "\<lparr>ptr = 1, refCount = 2\<rparr>"
      "\<lparr>mem = [Obj [Transform, Component], Cell 2, Obj [CShape, Component], Cell 1], freed = []\<rparr>"
      5 "\<lparr>ptr = 3, refCount = 4\<rparr>"]
  by (simp add: store_defs shared_defs)

text \<open>
  Counterexample to C5 as stated: after a copy assignment that releases the last handle of
  one object, the fields of the assigned handle are those of the other handle, not null.
\<close>

theorem copy_assign_fields_counterexample:
  "copy_assign \<lparr>ptr = 1, refCount = 2\<rparr> \<lparr>ptr = 3, refCount = 4\<rparr>
      \<lparr>mem = [Obj [Transform, Component], Cell 1, Obj [CShape, Component], Cell 1], freed = []\<rparr>
     = Inr (\<lparr>ptr = 3, refCount = 4\<rparr>,
        \<lparr>mem = [Freed, Freed, Obj [CShape, Component], Cell 2], freed = [1, 2]\<rparr>) \<and>
   \<not> (ptr \<lparr>ptr = 3, refCount = 4\<rparr> = 0 \<and> refCount \<lparr>ptr = 3, refCount = 4\<rparr> = 0)"
  by (simp add: store_defs shared_defs)

section \<open>Handles with a count and no target\<close>

text \<open>
  Claim C3 at the input on which the code departs from it: the constructor from a raw
  pointer allocates a count for a null pointer too, so the handle has a null target and a
  non-null count, while \<open>reset(nullptr)\<close>, the sibling path, leaves both fields null.
\<close>

theorem raw_null_keeps_a_count:
  "TSharedPointer_raw 0 h =
     (\<lparr>ptr = 0, refCount = Suc (length (mem h))\<rparr>, h\<lparr>mem := mem h @ [Cell 1]\<rparr>) \<and>
   reset 0 TSharedPointer_default h = Inr (\<lparr>ptr = 0, refCount = 0\<rparr>, h)"
  by (simp add: TSharedPointer_raw_def new_int_def reset_def release_default)

section \<open>dynamic_pointer_cast\<close>

lemma count_at_write_cell:
  "count_at (write_cell c m h) a =
     (if a = c \<and> slot_at h c \<noteq> None then m else count_at h a)"
  by (auto simp: count_at_def slot_at_write_cell)

lemma instance_of_nonnull: "instance_of h U p \<Longrightarrow> p \<noteq> 0"
  by (cases "p = 0") (simp_all add: instance_of_def)

lemma dynamic_cast_obj:
  "slot_at h p = Some (Obj cs) \<Longrightarrow> dynamic_cast U p h = Inr (if U \<in> set cs then p else 0)"
  using slot_at_SomeD [of h p] by (simp add: dynamic_cast_def)

lemma dynamic_pointer_cast_usable:
  assumes "usable h this"
  shows "dynamic_pointer_cast U this h =
     (if instance_of h U (ptr this)
      then Inr (\<lparr>ptr = ptr this, refCount = refCount this\<rparr>,
                write_cell (refCount this) (count_at h (refCount this) + 1) h)
      else Inr (TSharedPointer_default, h))"
proof (cases "ptr this = 0")
  case True
  then show ?thesis
    by (simp add: dynamic_pointer_cast_def dynamic_cast_def instance_of_def)
next
  case False
  with assms obtain cs n where
    o: "slot_at h (ptr this) = Some (Obj cs)" and
    c: "slot_at h (refCount this) = Some (Cell n)" and n: "n < INT_MAX"
    by (auto simp: usable_def is_object_def split: option.splits slot.splits)
  from c n have "incr_if (refCount this) h = Inr (write_cell (refCount this) (n + 1) h)"
    by (simp add: incr_if_live)
  with o c False show ?thesis
    by (simp add: dynamic_pointer_cast_def dynamic_cast_obj instance_of_def
        TSharedPointer_alias_def count_at_def)
qed

text \<open>
  Claim C2. For a usable handle and a class \<open>U\<close>: when the target is an instance of \<open>U\<close>
  (its dynamic class is \<open>U\<close> or derives from it), \<open>dynamic_pointer_cast<U>\<close> returns a handle
  with the same target and the same count cell, and the only change of the store is that
  this count is one more; otherwise (also for an empty handle) it returns the empty handle
  and the store is unchanged. The member is \<open>const\<close>: the handle itself is never written.
\<close>

theorem castTo_aliases_or_empty:
  assumes "usable h this"
  shows "if instance_of h U (ptr this)
     then \<exists>h'. dynamic_pointer_cast U this h =
             Inr (\<lparr>ptr = ptr this, refCount = refCount this\<rparr>, h') \<and>
           count_at h' (refCount this) = count_at h (refCount this) + 1 \<and>
           (\<forall>a. a \<noteq> refCount this \<longrightarrow> slot_at h' a = slot_at h a) \<and>
           freed h' = freed h \<and> length (mem h') = length (mem h)
     else dynamic_pointer_cast U this h = Inr (TSharedPointer_default, h)"
proof (cases "instance_of h U (ptr this)")
  case False
  then show ?thesis using dynamic_pointer_cast_usable [OF assms, of U] by simp
next
  case True
  then have "ptr this \<noteq> 0" by (rule instance_of_nonnull)
  with assms have "slot_at h (refCount this) \<noteq> None"
    by (auto simp: usable_def split: option.splits)
  with True show ?thesis
    using dynamic_pointer_cast_usable [OF assms, of U]
    by (simp add: count_at_write_cell slot_at_write_cell)
qed

text \<open>
  Witness for C2: the handle of a \<open>CShape\<close>, cast to \<open>Component\<close> (its base) and to
  \<open>Transform\<close> (unrelated).
\<close>

theorem castTo_aliases_or_empty_witness:
  "usable \<lparr>mem = [Obj [CShape, Component], Cell 1], freed = []\<rparr> \<lparr>ptr = 1, refCount = 2\<rparr> \<and>
   dynamic_pointer_cast Component \<lparr>ptr = 1, refCount = 2\<rparr>
       \<lparr>mem = [Obj [CShape, Component], Cell 1], freed = []\<rparr> =
     Inr (\<lparr>ptr = 1, refCount = 2\<rparr>, \<lparr>mem = [Obj [CShape, Component], Cell 2], freed = []\<rparr>) \<and>
   dynamic_pointer_cast Transform \<lparr>ptr = 1, refCount = 2\<rparr>
       \<lparr>mem = [Obj [CShape, Component], Cell 1], freed = []\<rparr> =
     Inr (\<lparr>ptr = 0, refCount = 0\<rparr>, \<lparr>mem = [Obj [CShape, Component], Cell 1], freed = []\<rparr>)"
  using castTo_aliases_or_empty [of "\<lparr>mem = [Obj [CShape, Component], Cell 1], freed = []\<rparr>"
      "\<lparr>ptr = 1, refCount = 2\<rparr>" Component]
  by (simp add: usable_def instance_of_def store_defs shared_defs)

section \<open>TWeakPointer::lock\<close>




section \<open>TUniquePtr and TStaticPtr: ownership in order\<close>

lemma is_objectD: "is_object h p \<Longrightarrow> \<exists>cs. slot_at h p = Some (Obj cs)"
  by (auto simp: is_object_def split: option.splits slot.splits)




lemma static_reset_object:
  assumes "instance_T s = 0 \<or> is_object (store s) (instance_T s)"
  shows "TStaticPtr_reset rawPtr s =
     Inr (s\<lparr>store := (if instance_T s = 0 then store s else free_slot (instance_T s) (store s)),
            history := history s @ (if instance_T s = 0 then [] else [Deleted (instance_T s)])
                         @ [Adopted rawPtr],
            instance_T := rawPtr\<rparr>)"
proof (cases "instance_T s = 0")
  case True
  then show ?thesis by (simp add: TStaticPtr_reset_def)
next
  case False
  with assms obtain cs where "slot_at (store s) (instance_T s) = Some (Obj cs)"
    by (auto dest: is_objectD)
  then have "delete_obj (instance_T s) (store s) = Inr (free_slot (instance_T s) (store s))"
    by (rule delete_obj_live)
  with False show ?thesis by (simp add: TStaticPtr_reset_def)
qed

text \<open>
  Claim C7. \<open>TStaticPtr<T>::reset(p1)\<close> followed by \<open>reset(p2)\<close>, where the slot is empty or
  holds a live object and \<open>p1\<close> is another live object: both calls return, \<open>p1\<close> is still
  alive between them, it is deleted before \<open>p2\<close> is adopted, as the history shows, and
  \<open>get()\<close> then returns \<open>p2\<close>.
\<close>

theorem static_reset_twice:
  assumes "instance_T s = 0 \<or> is_object (store s) (instance_T s)"
    and "is_object (store s) p1" and "p1 \<noteq> instance_T s"
  shows "\<exists>s1 s2. TStaticPtr_reset p1 s = Inr s1 \<and> TStaticPtr_reset p2 s1 = Inr s2 \<and>
     TStaticPtr_get s2 = p2 \<and>
     history s2 = history s @ (if instance_T s = 0 then [] else [Deleted (instance_T s)])
                    @ [Adopted p1, Deleted p1, Adopted p2] \<and>
     slot_at (store s1) p1 = slot_at (store s) p1 \<and>
     slot_at (store s2) p1 = Some Freed"
proof -
  let ?s1 = "s\<lparr>store := (if instance_T s = 0 then store s else free_slot (instance_T s) (store s)),
            history := history s @ (if instance_T s = 0 then [] else [Deleted (instance_T s)])
                         @ [Adopted p1],
            instance_T := p1\<rparr>"
  have r1: "TStaticPtr_reset p1 s = Inr ?s1"
    using assms(1) by (rule static_reset_object)
  from assms(2) obtain cs where cs: "slot_at (store s) p1 = Some (Obj cs)"
    by (auto dest: is_objectD)
  then have p1: "p1 \<noteq> 0" by (auto dest: slot_at_SomeD)
  have keep: "slot_at (store ?s1) p1 = Some (Obj cs)"
    using cs assms(3) by (simp add: slot_at_free_slot)
  then have o1: "instance_T ?s1 = 0 \<or> is_object (store ?s1) (instance_T ?s1)"
    by (simp add: is_object_def)
  have r2: "TStaticPtr_reset p2 ?s1 = Inr (?s1\<lparr>store := free_slot p1 (store ?s1),
       history := history ?s1 @ [Deleted p1] @ [Adopted p2], instance_T := p2\<rparr>)"
    using static_reset_object [OF o1, of p2] p1 by simp
  show ?thesis
    using r1 r2 keep cs p1 by (simp add: TStaticPtr_get_def slot_at_free_slot)
qed

text \<open>Witness for C7: an empty slot, then two objects in turn.\<close>

theorem static_reset_twice_witness:
  "is_object \<lparr>mem = [Obj [CShape, Component], Obj [Transform, Component]], freed = []\<rparr> 1 \<and>
   TStaticPtr_reset 1
     \<lparr>store = \<lparr>mem = [Obj [CShape, Component], Obj [Transform, Component]], freed = []\<rparr>,
      history = [], instance_T = 0\<rparr> =
   Inr \<lparr>store = \<lparr>mem = [Obj [CShape, Component], Obj [Transform, Component]], freed = []\<rparr>,
        history = [Adopted 1], instance_T = 1\<rparr> \<and>
   TStaticPtr_reset 2
     \<lparr>store = \<lparr>mem = [Obj [CShape, Component], Obj [Transform, Component]], freed = []\<rparr>,
      history = [Adopted 1], instance_T = 1\<rparr> =
   Inr \<lparr>store = \<lparr>mem = [Freed, Obj [Transform, Component]], freed = [1]\<rparr>,
        history = [Adopted 1, Deleted 1, Adopted 2], instance_T = 2\<rparr> \<and>
   TStaticPtr_get
     \<lparr>store = \<lparr>mem = [Freed, Obj [Transform, Component]], freed = [1]\<rparr>,
      history = [Adopted 1, Deleted 1, Adopted 2], instance_T = 2\<rparr> = 2"
  using static_reset_twice [of
      "\<lparr>store = \<lparr>mem = [Obj [CShape, Component], Obj [Transform, Component]], freed = []\<rparr>,
        history = [], instance_T = 0\<rparr>" 1 2]
  by (simp add: TStaticPtr_reset_def TStaticPtr_get_def store_defs)

section \<open>Components of an entity\<close>

lemma to_bool_default [simp]: "\<not> to_bool TSharedPointer_default"
  by (simp add: to_bool_def)

lemma getComponent_loop_find:
  assumes "\<forall>c \<in> set cs. usable h c"
  shows "getComponent_loop T cs h =
     (case find (\<lambda>c. instance_of h T (ptr c)) cs of
        None \<Rightarrow> Inr (TSharedPointer_default, h)
      | Some c \<Rightarrow> Inr (\<lparr>ptr = ptr c, refCount = refCount c\<rparr>,
                       write_cell (refCount c) (count_at h (refCount c) + 1) h))"
  using assms
proof (induction cs)
  case Nil
  show ?case by simp
next
  case (Cons c cs)
  then have u: "usable h c" and rest: "\<forall>c \<in> set cs. usable h c" by simp_all
  show ?case
  proof (cases "instance_of h T (ptr c)")
    case True
    then have "to_bool \<lparr>ptr = ptr c, refCount = refCount c\<rparr>"
      by (simp add: to_bool_def instance_of_nonnull)
    with True show ?thesis
      by (simp add: dynamic_pointer_cast_usable [OF u])
  next
    case False
    then show ?thesis
      using Cons.IH [OF rest]
      by (simp add: dynamic_pointer_cast_usable [OF u] release_default)
  qed
qed

text \<open>
  Claim C8. When every attached component handle is usable, \<open>Entity::getComponent<T>\<close>
  returns, for the first component in insertion order whose target is an instance of
  \<open>T\<close>, a non-null handle with that component's target and count cell (the count one
  more), and the empty handle with the store unchanged when there is none;
  \<open>Actor::getComponent<T>\<close> does the same.
\<close>

theorem getComponent_first_match:
  assumes "\<forall>c \<in> set (components this). usable h c"
  shows "(case find (\<lambda>c. instance_of h T (ptr c)) (components this) of
        None \<Rightarrow> Entity_getComponent T this h = Inr (TSharedPointer_default, h)
      | Some c \<Rightarrow>
          Entity_getComponent T this h =
            Inr (\<lparr>ptr = ptr c, refCount = refCount c\<rparr>,
                 write_cell (refCount c) (count_at h (refCount c) + 1) h) \<and>
          to_bool \<lparr>ptr = ptr c, refCount = refCount c\<rparr>) \<and>
     Actor_getComponent T a h = Entity_getComponent T a h"
proof -
  have "find (\<lambda>c. instance_of h T (ptr c)) (components this) = Some c \<Longrightarrow>
      to_bool \<lparr>ptr = ptr c, refCount = refCount c\<rparr>" for c
    by (auto simp: find_Some_iff to_bool_def dest: instance_of_nonnull)
  then show ?thesis
    using getComponent_loop_find [OF assms, of T]
    by (auto simp: Entity_getComponent_def Actor_getComponent_def split: option.splits)
qed

text \<open>
  Claim C10. From any store, \<open>Actor(actorName)\<close> returns an actor whose component list
  has exactly two handles: at index 0 the handle of a new \<open>CShape\<close>, at index 1 the handle
  of a new \<open>Transform\<close>, each the only handle of its object (count 1) once the constructor
  has ended. \<open>getComponent<CShape>()\<close> and \<open>getComponent<Transform>()\<close> then return non-null
  handles on these two different objects.
\<close>

theorem Actor_ctor_attaches_shape_then_transform:
  "\<exists>this h'. Actor_ctor actorName h = Inr (this, h') \<and>
     m_name this = actorName \<and>
     components this =
       [\<lparr>ptr = length (mem h) + 1, refCount = length (mem h) + 2\<rparr>,
        \<lparr>ptr = length (mem h) + 3, refCount = length (mem h) + 4\<rparr>] \<and>
     mem h' = mem h @ [Obj [CShape, Component], Cell 1, Obj [Transform, Component], Cell 1] \<and>
     freed h' = freed h \<and>
     Actor_getComponent CShape this h' =
       Inr (\<lparr>ptr = length (mem h) + 1, refCount = length (mem h) + 2\<rparr>,
            h'\<lparr>mem := mem h @ [Obj [CShape, Component], Cell 2, Obj [Transform, Component], Cell 1]\<rparr>) \<and>
     Actor_getComponent Transform this h' =
       Inr (\<lparr>ptr = length (mem h) + 3, refCount = length (mem h) + 4\<rparr>,
            h'\<lparr>mem := mem h @ [Obj [CShape, Component], Cell 1, Obj [Transform, Component], Cell 2]\<rparr>)"
  by (simp add: Actor_ctor_def Actor_getComponent_def addComponent_def store_defs shared_defs
      nth_append list_update_append Let_def)

text \<open>
  Witness for C8: a \<open>CShape\<close> and a \<open>Transform\<close> are attached to an entity with
  \<open>addComponent\<close>; each is then found by its own class, and a class that no component has
  is not.
\<close>

theorem getComponent_first_match_witness:
  "addComponent \<lparr>ptr = 1, refCount = 2\<rparr> \<lparr>isActive = True, id = 0, components = []\<rparr>
     \<lparr>mem = [Obj [CShape, Component], Cell 1, Obj [Transform, Component], Cell 1], freed = []\<rparr> =
   Inr (\<lparr>isActive = True, id = 0, components = [\<lparr>ptr = 1, refCount = 2\<rparr>]\<rparr>,
     \<lparr>mem = [Obj [CShape, Component], Cell 2, Obj [Transform, Component], Cell 1], freed = []\<rparr>) \<and>
   addComponent \<lparr>ptr = 3, refCount = 4\<rparr>
     \<lparr>isActive = True, id = 0, components = [\<lparr>ptr = 1, refCount = 2\<rparr>]\<rparr>
     \<lparr>mem = [Obj [CShape, Component], Cell 2, Obj [Transform, Component], Cell 1], freed = []\<rparr> =
   Inr (\<lparr>isActive = True, id = 0,
          components = [\<lparr>ptr = 1, refCount = 2\<rparr>, \<lparr>ptr = 3, refCount = 4\<rparr>]\<rparr>,
     \<lparr>mem = [Obj [CShape, Component], Cell 2, Obj [Transform, Component], Cell 2], freed = []\<rparr>) \<and>
   usable \<lparr>mem = [Obj [CShape, Component], Cell 2, Obj [Transform, Component], Cell 2], freed = []\<rparr>
     \<lparr>ptr = 1, refCount = 2\<rparr> \<and>
   usable \<lparr>mem = [Obj [CShape, Component], Cell 2, Obj [Transform, Component], Cell 2], freed = []\<rparr>
     \<lparr>ptr = 3, refCount = 4\<rparr> \<and>
   Entity_getComponent Transform
     \<lparr>isActive = True, id = 0,
        components = [\<lparr>ptr = 1, refCount = 2\<rparr>, \<lparr>ptr = 3, refCount = 4\<rparr>]\<rparr>
     \<lparr>mem = [Obj [CShape, Component], Cell 2, Obj [Transform, Component], Cell 2], freed = []\<rparr> =
   Inr (\<lparr>ptr = 3, refCount = 4\<rparr>,
     \<lparr>mem = [Obj [CShape, Component], Cell 2, Obj [Transform, Component], Cell 3], freed = []\<rparr>) \<and>
   Entity_getComponent CShape
     \<lparr>isActive = True, id = 0,
        components = [\<lparr>ptr = 1, refCount = 2\<rparr>, \<lparr>ptr = 3, refCount = 4\<rparr>]\<rparr>
     \<lparr>mem = [Obj [CShape, Component], Cell 2, Obj [Transform, Component], Cell 2], freed = []\<rparr> =
   Inr (\<lparr>ptr = 1, refCount = 2\<rparr>,
     \<lparr>mem = [Obj [CShape, Component], Cell 3, Obj [Transform, Component], Cell 2], freed = []\<rparr>) \<and>
   Entity_getComponent (UserComponent ''Camera'')
     \<lparr>isActive = True, id = 0,
        components = [\<lparr>ptr = 1, refCount = 2\<rparr>, \<lparr>ptr = 3, refCount = 4\<rparr>]\<rparr>
     \<lparr>mem = [Obj [CShape, Component], Cell 2, Obj [Transform, Component], Cell 2], freed = []\<rparr> =
   Inr (\<lparr>ptr = 0, refCount = 0\<rparr>,
     \<lparr>mem = [Obj [CShape, Component], Cell 2, Obj [Transform, Component], Cell 2], freed = []\<rparr>)"
  using getComponent_first_match [of
      "\<lparr>isActive = True, id = 0,
         components = [\<lparr>ptr = 1, refCount = 2\<rparr>, \<lparr>ptr = 3, refCount = 4\<rparr>]\<rparr>"
      "\<lparr>mem = [Obj [CShape, Component], Cell 2, Obj [Transform, Component], Cell 2], freed = []\<rparr>"
      Transform]
  by (simp add: Entity_getComponent_def addComponent_def usable_def instance_of_def
      store_defs shared_defs)

section \<open>Counting the handles of a group\<close>

lemma count_list_update:
  "i < length xs \<Longrightarrow>
   count_list (xs[i := y]) c + (if xs ! i = c then 1 else 0) =
   count_list xs c + (if y = c then 1 else 0)"
proof (induction xs arbitrary: i)
  case Nil
  then show ?case by simp
next
  case (Cons x xs)
  show ?case
  proof (cases i)
    case 0
    then show ?thesis by simp
  next
    case (Suc k)
    with Cons.prems have "k < length xs" by simp
    from Cons.IH [OF this] Suc show ?thesis by (auto split: if_splits)
  qed
qed

lemma in_vars_iff: "Some this \<in> set (vars s) \<longleftrightarrow> (\<exists>i. var s i = Some this)"
  by (auto simp: var_def in_set_conv_nth split: if_splits)

lemma var_SomeD: "var s i = Some this \<Longrightarrow> i < length (vars s) \<and> vars s ! i = Some this"
  by (auto simp: var_def split: if_splits)

lemma var_in_vars: "var s i = Some this \<Longrightarrow> Some this \<in> set (vars s)"
  by (auto simp: in_vars_iff)

lemma handles_of_pos_iff: "0 < handles_of s c \<longleftrightarrow> c \<in> set (counts s)"
  using count_list_0_iff [of "counts s" c] by (auto simp: handles_of_def)

lemma count_of_in_counts: "v \<in> set (vars s) \<Longrightarrow> count_of v \<in> set (counts s)"
  by (simp add: counts_def)

lemma target_of_in_targets: "v \<in> set (vars s) \<Longrightarrow> target_of v \<in> set (targets s)"
  by (simp add: targets_def)

lemma in_countsD:
  assumes "c \<in> set (counts s)" and "c \<noteq> 0"
  shows "\<exists>this. Some this \<in> set (vars s) \<and> refCount this = c"
proof -
  from assms(1) obtain v where v: "v \<in> set (vars s)" "count_of v = c"
    by (auto simp: counts_def)
  with assms(2) show ?thesis by (cases v) auto
qed

lemma in_targetsD:
  assumes "p \<in> set (targets s)" and "p \<noteq> 0"
  shows "\<exists>this. Some this \<in> set (vars s) \<and> ptr this = p"
proof -
  from assms(1) obtain v where v: "v \<in> set (vars s)" "target_of v = p"
    by (auto simp: targets_def)
  with assms(2) show ?thesis by (cases v) auto
qed

lemma in_update_cases:
  assumes "x \<in> set (xs[i := v])"
  shows "x = v \<or> (\<exists>j. j < length xs \<and> j \<noteq> i \<and> xs ! j = x)"
proof -
  from assms obtain j where j: "j < length xs" "xs[i := v] ! j = x"
    by (auto simp: in_set_conv_nth)
  show ?thesis
  proof (cases "j = i")
    case True
    with j show ?thesis by simp
  next
    case False
    with j show ?thesis by auto
  qed
qed

lemma countedD:
  "counted s \<Longrightarrow> slot_at (free_store s) c = Some (Cell n) \<Longrightarrow>
   n = int (handles_of s c) \<and> 0 < handles_of s c"
  unfolding counted_def by blast

lemma anchoredD: "anchored s \<Longrightarrow> Some this \<in> set (vars s) \<Longrightarrow> anchored_in (free_store s) this"
  unfolding anchored_def by blast

lemma groupedD:
  "grouped s \<Longrightarrow> Some this \<in> set (vars s) \<Longrightarrow> Some other \<in> set (vars s) \<Longrightarrow>
   ptr this \<noteq> 0 \<Longrightarrow> ptr this = ptr other \<Longrightarrow> refCount this = refCount other"
  unfolding grouped_def by blast

lemma anchored_in_default [simp]: "anchored_in h TSharedPointer_default"
  by (simp add: anchored_in_def)

lemma keptD_cell:
  "kept h h' a \<Longrightarrow> slot_at h a = Some (Cell n) \<Longrightarrow> \<exists>m. slot_at h' a = Some (Cell m)"
  by (simp add: kept_def)

lemma keptD_obj: "kept h h' a \<Longrightarrow> is_object h a \<Longrightarrow> is_object h' a"
  by (auto simp: kept_def is_object_def split: option.splits slot.splits)

lemma anchored_in_kept:
  assumes "anchored_in h this"
    and "refCount this \<noteq> 0 \<Longrightarrow> kept h h' (refCount this)"
    and "ptr this \<noteq> 0 \<Longrightarrow> kept h h' (ptr this)"
  shows "anchored_in h' this"
  using assms unfolding anchored_in_def by (blast dest: keptD_cell keptD_obj)

lemma quiet_kept: "quiet h h' \<Longrightarrow> slot_at h a \<noteq> None \<Longrightarrow> kept h h' a"
  by (auto simp: quiet_def dest: slot_at_SomeD)

lemma anchored_in_quiet:
  assumes "anchored_in h this" and "quiet h h'"
  shows "anchored_in h' this"
proof (rule anchored_in_kept [OF assms(1)])
  assume "refCount this \<noteq> 0"
  with assms(1) have "slot_at h (refCount this) \<noteq> None" by (auto simp: anchored_in_def)
  with assms(2) show "kept h h' (refCount this)" by (rule quiet_kept)
next
  assume "ptr this \<noteq> 0"
  with assms(1) have "slot_at h (ptr this) \<noteq> None"
    by (auto simp: anchored_in_def dest: is_objectD)
  with assms(2) show "kept h h' (ptr this)" by (rule quiet_kept)
qed

section \<open>The invariant when one handle variable changes\<close>

lemma counted_update:
  assumes cs: "counted s" and i: "i < length (vars s)"
    and vars: "vars s' = (vars s)[i := v]"
    and cells: "\<And>c n'. slot_at (free_store s') c = Some (Cell n') \<Longrightarrow>
        1 \<le> n' \<and>
        ((\<exists>n. slot_at (free_store s) c = Some (Cell n) \<and>
              n' + (if count_of (vars s ! i) = c then 1 else 0)
                = n + (if count_of v = c then 1 else 0)) \<or>
         (c \<notin> set (counts s) \<and> count_of v = c \<and> n' = 1))"
  shows "counted s'"
  unfolding counted_def
proof (intro allI impI)
  fix c n' assume c: "slot_at (free_store s') c = Some (Cell n')"
  have cnt: "counts s' = (counts s)[i := count_of v]"
    by (simp add: counts_def vars map_update)
  have old: "counts s ! i = count_of (vars s ! i)"
    using i by (simp add: counts_def)
  have upd: "handles_of s' c + (if count_of (vars s ! i) = c then 1 else 0) =
      handles_of s c + (if count_of v = c then 1 else 0)"
    unfolding handles_of_def cnt
    using count_list_update [of i "counts s" "count_of v" c] i old
    by (simp add: counts_def)
  from cells [OF c] have pos: "1 \<le> n'" by simp
  from cells [OF c] consider
    (old) n where "slot_at (free_store s) c = Some (Cell n)"
      "n' + (if count_of (vars s ! i) = c then 1 else 0) = n + (if count_of v = c then 1 else 0)"
    | (new) "c \<notin> set (counts s)" "count_of v = c" "n' = 1"
    by blast
  then have "n' = int (handles_of s' c)"
  proof cases
    case old
    from countedD [OF cs old(1)] have "n = int (handles_of s c)" by simp
    with old(2) upd show ?thesis by (auto split: if_splits)
  next
    case new
    from new(1) have z: "handles_of s c = 0"
      using handles_of_pos_iff [of s c] by simp
    have "count_of (vars s ! i) \<in> set (counts s)"
      using i by (simp add: counts_def)
    with new(1) have "count_of (vars s ! i) \<noteq> c" by auto
    with upd z new show ?thesis by simp
  qed
  with pos show "n' = int (handles_of s' c) \<and> 0 < handles_of s' c" by simp
qed

lemma anchored_update:
  assumes "anchored s" and vars: "vars s' = (vars s)[i := v]"
    and old: "\<And>j t. j \<noteq> i \<Longrightarrow> var s j = Some t \<Longrightarrow> anchored_in (free_store s) t \<Longrightarrow>
        anchored_in (free_store s') t"
    and new: "\<And>t. v = Some t \<Longrightarrow> anchored_in (free_store s') t"
  shows "anchored s'"
  unfolding anchored_def
proof (intro allI impI)
  fix t assume "Some t \<in> set (vars s')"
  then have "Some t \<in> set ((vars s)[i := v])" by (simp add: vars)
  from in_update_cases [OF this] show "anchored_in (free_store s') t"
  proof
    assume "Some t = v"
    then show ?thesis using new by simp
  next
    assume "\<exists>j. j < length (vars s) \<and> j \<noteq> i \<and> vars s ! j = Some t"
    then obtain j where j: "j < length (vars s)" "j \<noteq> i" "vars s ! j = Some t" by blast
    then have v: "var s j = Some t" by (simp add: var_def)
    then have "Some t \<in> set (vars s)" by (rule var_in_vars)
    with assms(1) have "anchored_in (free_store s) t" by (rule anchoredD)
    with j(2) v show ?thesis by (rule old)
  qed
qed

lemma grouped_update:
  assumes g: "grouped s" and vars: "vars s' = (vars s)[i := v]"
    and new: "\<And>t j u. v = Some t \<Longrightarrow> j \<noteq> i \<Longrightarrow> var s j = Some u \<Longrightarrow>
        ptr t \<noteq> 0 \<or> ptr u \<noteq> 0 \<Longrightarrow> ptr u = ptr t \<Longrightarrow> refCount u = refCount t"
  shows "grouped s'"
  unfolding grouped_def
proof (intro allI impI)
  fix t u
  assume t: "Some t \<in> set (vars s')" and u: "Some u \<in> set (vars s')"
    and p: "ptr t \<noteq> 0" and e: "ptr t = ptr u"
  from t have t': "Some t = v \<or> (\<exists>j. j < length (vars s) \<and> j \<noteq> i \<and> vars s ! j = Some t)"
    using in_update_cases [of "Some t" "vars s" i v] by (simp add: vars)
  from u have u': "Some u = v \<or> (\<exists>j. j < length (vars s) \<and> j \<noteq> i \<and> vars s ! j = Some u)"
    using in_update_cases [of "Some u" "vars s" i v] by (simp add: vars)
  show "refCount t = refCount u"
  proof (cases "Some t = v")
    case True
    show ?thesis
    proof (cases "Some u = v")
      case True
      with \<open>Some t = v\<close> have "Some t = Some u" by (rule trans [OF _ sym])
      then show ?thesis by simp
    next
      case False
      with u' obtain j where j: "j < length (vars s)" "j \<noteq> i" "vars s ! j = Some u" by blast
      then have "var s j = Some u" by (simp add: var_def)
      from new [OF True [symmetric] j(2) this disjI1 [OF p] e [symmetric]]
      show ?thesis by (rule sym)
    qed
  next
    case False
    with t' obtain j where j: "j < length (vars s)" "j \<noteq> i" "vars s ! j = Some t" by blast
    then have vt: "var s j = Some t" by (simp add: var_def)
    show ?thesis
    proof (cases "Some u = v")
      case True
      from p e have pu: "ptr u \<noteq> 0" by simp
      from new [OF True [symmetric] j(2) vt disjI2 [OF p] e] show ?thesis .
    next
      case False
      with u' obtain k where k: "k < length (vars s)" "k \<noteq> i" "vars s ! k = Some u" by blast
      then have "var s k = Some u" by (simp add: var_def)
      then have us: "Some u \<in> set (vars s)" by (rule var_in_vars)
      from vt have ts: "Some t \<in> set (vars s)" by (rule var_in_vars)
      from groupedD [OF g ts us p e] show ?thesis .
    qed
  qed
qed

lemma kept_Freed_iff:
  "kept h h' a \<Longrightarrow> slot_at h' a = Some Freed \<longleftrightarrow> slot_at h a = Some Freed"
  by (auto simp: kept_def split: option.splits slot.splits)

lemma logged_quiet:
  assumes "logged h" and "quiet h h'"
  shows "logged h'"
  unfolding logged_def
proof (intro conjI allI)
  show "distinct (freed h')" using assms by (simp add: logged_def quiet_def)
next
  fix a
  show "a \<in> set (freed h') \<longleftrightarrow> slot_at h' a = Some Freed"
  proof (cases "a \<le> length (mem h)")
    case True
    with assms(2) have "kept h h' a" by (simp add: quiet_def)
    then have "slot_at h' a = Some Freed \<longleftrightarrow> slot_at h a = Some Freed"
      by (rule kept_Freed_iff)
    with assms show ?thesis by (simp add: logged_def quiet_def)
  next
    case False
    then have "slot_at h a = None" by (simp add: slot_at_def)
    moreover from False assms(2) have "slot_at h' a \<noteq> Some Freed" by (simp add: quiet_def)
    ultimately show ?thesis using assms by (simp add: logged_def quiet_def)
  qed
qed

lemma invariant_perm:
  assumes "invariant s" and m: "mset (vars s') = mset (vars s)"
    and h: "free_store s' = free_store s"
  shows "invariant s'"
proof -
  from m have set: "set (vars s') = set (vars s)" by (rule mset_eq_setD)
  have "mset (counts s') = mset (counts s)"
    unfolding counts_def using m by (metis mset_map)
  then have "count_list (counts s') c = count_list (counts s) c" for c
    by (metis count_mset)
  then have ho: "handles_of s' = handles_of s"
    by (simp add: handles_of_def fun_eq_iff)
  from assms(1) have "counted s" "anchored s" "grouped s" "logged (free_store s)"
    by (simp_all add: invariant_def)
  then have "counted s'" and "anchored s'" and "grouped s'" and "logged (free_store s')"
    unfolding counted_def anchored_def grouped_def set h ho by blast+
  then show ?thesis by (simp add: invariant_def)
qed

lemma slot_at_append:
  "slot_at (h\<lparr>mem := mem h @ [x]\<rparr>) a =
     (if a = Suc (length (mem h)) then Some x else slot_at h a)"
  by (auto simp: slot_at_def nth_append)

lemma kept_refl: "kept h h a"
  by (simp add: kept_def split: option.splits slot.splits)

lemma quiet_refl: "quiet h h"
  by (simp add: quiet_def kept_refl slot_at_def)

lemma quiet_write_cell:
  assumes "slot_at h c = Some (Cell n)"
  shows "quiet h (write_cell c m h)"
proof -
  have "kept h (write_cell c m h) a" for a
    using assms by (auto simp: kept_def slot_at_write_cell split: option.splits slot.splits)
  moreover have "slot_at (write_cell c m h) a \<noteq> Some Freed" if "length (mem h) < a" for a
    using that by (simp add: slot_at_def)
  ultimately show ?thesis by (simp add: quiet_def)
qed

lemma quiet_append:
  assumes "x \<noteq> Freed"
  shows "quiet h (h\<lparr>mem := mem h @ [x]\<rparr>)"
proof -
  have "kept h (h\<lparr>mem := mem h @ [x]\<rparr>) a" if "a \<le> length (mem h)" for a
    using that by (simp add: kept_def slot_at_append split: option.splits slot.splits)
  moreover have "slot_at (h\<lparr>mem := mem h @ [x]\<rparr>) a \<noteq> Some Freed" if "length (mem h) < a" for a
    using that assms by (auto simp: slot_at_append) (simp add: slot_at_def)
  ultimately show ?thesis by (simp add: quiet_def)
qed

lemma invariant_parts:
  "invariant s \<Longrightarrow> counted s" "invariant s \<Longrightarrow> anchored s" "invariant s \<Longrightarrow> grouped s"
  "invariant s \<Longrightarrow> logged (free_store s)"
  by (simp_all add: invariant_def)

lemma invariantI:
  "counted s \<Longrightarrow> anchored s \<Longrightarrow> grouped s \<Longrightarrow> logged (free_store s) \<Longrightarrow> invariant s"
  by (simp add: invariant_def)

text \<open>The store changes quietly and keeps every count; the handle variables stay.\<close>

lemma invariant_same_vars:
  assumes inv: "invariant s" and vars: "vars s' = vars s"
    and q: "quiet (free_store s) (free_store s')"
    and cells: "\<And>c n. slot_at (free_store s') c = Some (Cell n) \<Longrightarrow>
        slot_at (free_store s) c = Some (Cell n)"
  shows "invariant s'"
proof (rule invariantI)
  have ho: "handles_of s' = handles_of s"
    by (simp add: handles_of_def counts_def vars fun_eq_iff)
  show "counted s'"
    unfolding counted_def ho using cells countedD [OF invariant_parts(1) [OF inv]] by blast
  show "anchored s'"
    unfolding anchored_def vars
    using anchoredD [OF invariant_parts(2) [OF inv]] anchored_in_quiet [OF _ q] by blast
  show "grouped s'"
    using invariant_parts(3) [OF inv] unfolding grouped_def vars by assumption
  show "logged (free_store s')"
    using invariant_parts(4) [OF inv] q by (rule logged_quiet)
qed

text \<open>A new empty handle variable.\<close>

lemma invariant_push:
  assumes inv: "invariant s" and vars: "vars s' = vars s @ [Some TSharedPointer_default]"
    and h: "free_store s' = free_store s"
  shows "invariant s'"
proof (rule invariantI)
  have ho: "handles_of s' c = handles_of s c" if "c \<noteq> 0" for c
    using that by (simp add: handles_of_def counts_def vars)
  show "counted s'"
    unfolding counted_def
  proof (intro allI impI)
    fix c n assume "slot_at (free_store s') c = Some (Cell n)"
    then have c: "slot_at (free_store s) c = Some (Cell n)" by (simp add: h)
    then have "c \<noteq> 0" by (auto dest: slot_at_SomeD)
    with countedD [OF invariant_parts(1) [OF inv] c] ho
    show "n = int (handles_of s' c) \<and> 0 < handles_of s' c" by simp
  qed
  show "anchored s'"
    unfolding anchored_def
  proof (intro allI impI)
    fix t assume "Some t \<in> set (vars s')"
    then consider "Some t \<in> set (vars s)" | "t = TSharedPointer_default"
      by (auto simp: vars)
    then show "anchored_in (free_store s') t"
    proof cases
      case 1
      with invariant_parts(2) [OF inv] show ?thesis by (simp add: h anchoredD)
    next
      case 2
      then show ?thesis by simp
    qed
  qed
  show "grouped s'"
    unfolding grouped_def
  proof (intro allI impI)
    fix t u
    assume t: "Some t \<in> set (vars s')" and u: "Some u \<in> set (vars s')"
      and p: "ptr t \<noteq> 0" and e: "ptr t = ptr u"
    from p e have pu: "ptr u \<noteq> 0" by simp
    from t p have t': "Some t \<in> set (vars s)" by (auto simp: vars)
    from u pu have u': "Some u \<in> set (vars s)" by (auto simp: vars)
    from groupedD [OF invariant_parts(3) [OF inv] t' u' p e]
    show "refCount t = refCount u" .
  qed
  show "logged (free_store s')"
    using invariant_parts(4) [OF inv] by (simp add: h)
qed

lemma var_count_in_counts: "var s j = Some t \<Longrightarrow> refCount t \<in> set (counts s)"
  using count_of_in_counts [of "Some t" s] by (auto dest: var_in_vars)

lemma var_target_in_targets: "var s j = Some t \<Longrightarrow> ptr t \<in> set (targets s)"
  using target_of_in_targets [of "Some t" s] by (auto dest: var_in_vars)

lemma var_anchored: "invariant s \<Longrightarrow> var s j = Some t \<Longrightarrow> anchored_in (free_store s) t"
  by (blast intro: anchoredD invariant_parts(2) var_in_vars)

lemma cell_nonnull: "slot_at h c = Some x \<Longrightarrow> c \<noteq> 0"
  by (auto dest: slot_at_SomeD)

text \<open>An empty handle variable is replaced by something that refers to nothing.\<close>

lemma invariant_replace_empty:
  assumes inv: "invariant s" and i: "var s i = Some t" and t: "refCount t = 0"
    and vars: "vars s' = (vars s)[i := v]" and h: "free_store s' = free_store s"
    and v: "v = None \<or> v = Some TSharedPointer_default"
  shows "invariant s'"
proof (rule invariantI)
  from i have il: "i < length (vars s)" and vi: "vars s ! i = Some t" by (auto dest: var_SomeD)
  from v have cv: "count_of v = 0" by auto
  show "counted s'"
  proof (rule counted_update [OF invariant_parts(1) [OF inv] il vars])
    fix c n' assume "slot_at (free_store s') c = Some (Cell n')"
    then have c: "slot_at (free_store s) c = Some (Cell n')" by (simp add: h)
    then have "c \<noteq> 0" by (rule cell_nonnull)
    with c countedD [OF invariant_parts(1) [OF inv] c] t
    show "1 \<le> n' \<and>
        ((\<exists>n. slot_at (free_store s) c = Some (Cell n) \<and>
              n' + (if count_of (vars s ! i) = c then 1 else 0)
                = n + (if count_of v = c then 1 else 0)) \<or>
         (c \<notin> set (counts s) \<and> count_of v = c \<and> n' = 1))"
      by (simp add: vi cv)
  qed
  show "anchored s'"
  proof (rule anchored_update [OF invariant_parts(2) [OF inv] vars])
    fix u assume "v = Some u"
    with v show "anchored_in (free_store s') u" by auto
  qed (simp add: h)
  show "grouped s'"
  proof (rule grouped_update [OF invariant_parts(3) [OF inv] vars])
    fix u j w
    assume "v = Some u" and "ptr u \<noteq> 0 \<or> ptr w \<noteq> 0" and "ptr w = ptr u"
    with v have False by auto
    then show "refCount w = refCount u" ..
  qed
  show "logged (free_store s')" using invariant_parts(4) [OF inv] by (simp add: h)
qed

text \<open>An empty handle variable becomes one more handle of the group of variable \<open>j\<close>.\<close>

lemma invariant_attach:
  assumes inv: "invariant s" and i: "var s i = Some t" and t: "refCount t = 0"
    and j: "var s j = Some other"
    and room: "count_at (free_store s) (refCount other) < INT_MAX"
  shows "\<exists>h'. incr_if (refCount other) (free_store s) = Inr h' \<and>
     quiet (free_store s) h' \<and>
     invariant \<lparr>free_store = h',
       vars = (vars s)[i := Some \<lparr>ptr = ptr other, refCount = refCount other\<rparr>]\<rparr>"
proof -
  let ?h = "free_store s"
  let ?v = "Some \<lparr>ptr = ptr other, refCount = refCount other\<rparr>"
  from i have il: "i < length (vars s)" and vi: "vars s ! i = Some t" by (auto dest: var_SomeD)
  have ao: "anchored_in ?h other" using inv j by (rule var_anchored)
  show ?thesis
  proof (cases "refCount other = 0")
    case True
    with ao have po: "ptr other = 0" by (auto simp: anchored_in_def)
    let ?s' = "\<lparr>free_store = ?h, vars = (vars s)[i := ?v]\<rparr>"
    have "?v = Some TSharedPointer_default"
      using True po by (simp add: TSharedPointer_default_def)
    then have "invariant ?s'"
      using invariant_replace_empty [OF inv i t, of ?s' ?v] by simp
    with True show ?thesis by (simp add: incr_if_null quiet_refl)
  next
    case False
    with ao obtain n where n: "slot_at ?h (refCount other) = Some (Cell n)"
      by (auto simp: anchored_in_def)
    with room have nmax: "n \<noteq> INT_MAX" by (simp add: count_at_def)
    let ?h' = "write_cell (refCount other) (n + 1) ?h"
    let ?s' = "\<lparr>free_store = ?h', vars = (vars s)[i := ?v]\<rparr>"
    have inc: "incr_if (refCount other) ?h = Inr ?h'" using n nmax by (rule incr_if_live)
    have q: "quiet ?h ?h'" using n by (rule quiet_write_cell)
    have "invariant ?s'"
    proof (rule invariantI)
      show "counted ?s'"
      proof (rule counted_update [OF invariant_parts(1) [OF inv] il])
        show "vars ?s' = (vars s)[i := ?v]" by simp
      next
        fix c n' assume "slot_at (free_store ?s') c = Some (Cell n')"
        then have c: "slot_at ?h' c = Some (Cell n')" by simp
        then have c0: "c \<noteq> 0" by (rule cell_nonnull)
        show "1 \<le> n' \<and>
            ((\<exists>m. slot_at ?h c = Some (Cell m) \<and>
                  n' + (if count_of (vars s ! i) = c then 1 else 0)
                    = m + (if count_of ?v = c then 1 else 0)) \<or>
             (c \<notin> set (counts s) \<and> count_of ?v = c \<and> n' = 1))"
        proof (cases "c = refCount other")
          case True
          with c n have "n' = n + 1" by (simp add: slot_at_write_cell)
          moreover from countedD [OF invariant_parts(1) [OF inv] n] have "1 \<le> n" by simp
          ultimately show ?thesis using True n c0 t by (simp add: vi)
        next
          case False
          with c have c': "slot_at ?h c = Some (Cell n')" by (simp add: slot_at_write_cell)
          from countedD [OF invariant_parts(1) [OF inv] c'] have "1 \<le> n'" by simp
          with c' False c0 t show ?thesis by (simp add: vi)
        qed
      qed
      show "anchored ?s'"
      proof (rule anchored_update [OF invariant_parts(2) [OF inv]])
        show "vars ?s' = (vars s)[i := ?v]" by simp
      next
        fix k u assume "anchored_in ?h u"
        then show "anchored_in (free_store ?s') u" using q by (simp add: anchored_in_quiet)
      next
        fix u assume "?v = Some u"
        then have u: "ptr u = ptr other" "refCount u = refCount other" by auto
        from ao q have "anchored_in ?h' other" by (rule anchored_in_quiet)
        then show "anchored_in (free_store ?s') u" by (simp add: anchored_in_def u)
      qed
      show "grouped ?s'"
      proof (rule grouped_update [OF invariant_parts(3) [OF inv]])
        show "vars ?s' = (vars s)[i := ?v]" by simp
      next
        fix u k w
        assume v: "?v = Some u" and k: "var s k = Some w"
          and p: "ptr u \<noteq> 0 \<or> ptr w \<noteq> 0" and e: "ptr w = ptr u"
        from v have u: "ptr u = ptr other" "refCount u = refCount other" by auto
        from p e have pw: "ptr w \<noteq> 0" by auto
        from e u have e': "ptr w = ptr other" by simp
        from groupedD [OF invariant_parts(3) [OF inv] var_in_vars [OF k] var_in_vars [OF j] pw e']
        show "refCount w = refCount u" by (simp add: u)
      qed
      show "logged (free_store ?s')"
        using logged_quiet [OF invariant_parts(4) [OF inv] q] by simp
    qed
    with inc q show ?thesis by blast
  qed
qed

lemma is_object_quiet: "is_object h p \<Longrightarrow> quiet h h' \<Longrightarrow> is_object h' p"
proof -
  assume o: "is_object h p" and q: "quiet h h'"
  from o have "slot_at h p \<noteq> None" by (auto dest: is_objectD)
  with q have "kept h h' p" by (rule quiet_kept)
  then show ?thesis using o by (rule keptD_obj)
qed

lemma counts_are_cells:
  assumes inv: "invariant s" and c: "c \<in> set (counts s)" and c0: "c \<noteq> 0"
  shows "\<exists>n. slot_at (free_store s) c = Some (Cell n)"
proof -
  from in_countsD [OF c c0] obtain t where t: "Some t \<in> set (vars s)" "refCount t = c" by blast
  from anchoredD [OF invariant_parts(2) [OF inv] t(1)] t(2) c0 show ?thesis
    by (auto simp: anchored_in_def)
qed

text \<open>An empty handle variable becomes the one handle of a new group.\<close>

lemma invariant_fresh:
  assumes inv: "invariant s" and i: "var s i = Some t" and t: "refCount t = 0"
    and p: "p = 0 \<or> unowned s p"
  shows "quiet (free_store s) (free_store s\<lparr>mem := mem (free_store s) @ [Cell 1]\<rparr>) \<and>
     invariant \<lparr>free_store = free_store s\<lparr>mem := mem (free_store s) @ [Cell 1]\<rparr>,
       vars = (vars s)[i := Some \<lparr>ptr = p, refCount = Suc (length (mem (free_store s)))\<rparr>]\<rparr>"
proof -
  let ?h = "free_store s"
  let ?c = "Suc (length (mem ?h))"
  let ?h' = "?h\<lparr>mem := mem ?h @ [Cell 1]\<rparr>"
  let ?v = "Some \<lparr>ptr = p, refCount = ?c\<rparr>"
  let ?s' = "\<lparr>free_store = ?h', vars = (vars s)[i := ?v]\<rparr>"
  from i have il: "i < length (vars s)" and vi: "vars s ! i = Some t" by (auto dest: var_SomeD)
  have q: "quiet ?h ?h'" by (rule quiet_append) simp
  have new: "?c \<notin> set (counts s)"
  proof
    assume "?c \<in> set (counts s)"
    from counts_are_cells [OF inv this] obtain n where "slot_at ?h ?c = Some (Cell n)" by auto
    then have "?c \<le> length (mem ?h)" by (auto dest: slot_at_SomeD)
    then show False by simp
  qed
  have "invariant ?s'"
  proof (rule invariantI)
    show "counted ?s'"
    proof (rule counted_update [OF invariant_parts(1) [OF inv] il])
      show "vars ?s' = (vars s)[i := ?v]" by simp
    next
      fix c n' assume "slot_at (free_store ?s') c = Some (Cell n')"
      then have c: "slot_at ?h' c = Some (Cell n')" by simp
      then have c0: "c \<noteq> 0" by (rule cell_nonnull)
      show "1 \<le> n' \<and>
          ((\<exists>m. slot_at ?h c = Some (Cell m) \<and>
                n' + (if count_of (vars s ! i) = c then 1 else 0)
                  = m + (if count_of ?v = c then 1 else 0)) \<or>
           (c \<notin> set (counts s) \<and> count_of ?v = c \<and> n' = 1))"
      proof (cases "c = ?c")
        case True
        with c have "n' = 1" by (simp add: slot_at_append)
        with True new show ?thesis by simp
      next
        case False
        with c have c': "slot_at ?h c = Some (Cell n')" by (simp add: slot_at_append)
        from countedD [OF invariant_parts(1) [OF inv] c'] have "1 \<le> n'" by simp
        with c' False c0 t show ?thesis by (simp add: vi)
      qed
    qed
    show "anchored ?s'"
    proof (rule anchored_update [OF invariant_parts(2) [OF inv]])
      show "vars ?s' = (vars s)[i := ?v]" by simp
    next
      fix k u assume "anchored_in ?h u"
      then show "anchored_in (free_store ?s') u" using q by (simp add: anchored_in_quiet)
    next
      fix u assume "?v = Some u"
      then have u: "ptr u = p" "refCount u = ?c" by auto
      have "is_object ?h' p" if "p \<noteq> 0"
        using that p q by (auto simp: unowned_def intro: is_object_quiet)
      then show "anchored_in (free_store ?s') u"
        by (simp add: anchored_in_def u slot_at_append)
    qed
    show "grouped ?s'"
    proof (rule grouped_update [OF invariant_parts(3) [OF inv]])
      show "vars ?s' = (vars s)[i := ?v]" by simp
    next
      fix u k w
      assume v: "?v = Some u" and k: "var s k = Some w"
        and d: "ptr u \<noteq> 0 \<or> ptr w \<noteq> 0" and e: "ptr w = ptr u"
      from v have u: "ptr u = p" by auto
      from d e u have p0: "p \<noteq> 0" by auto
      with p have "p \<notin> set (targets s)" by (simp add: unowned_def)
      moreover from var_target_in_targets [OF k] e u have "p \<in> set (targets s)" by simp
      ultimately have False by simp
      then show "refCount w = refCount u" ..
    qed
    show "logged (free_store ?s')"
      using logged_quiet [OF invariant_parts(4) [OF inv] q] by simp
  qed
  with q show ?thesis by simp
qed

text \<open>Two different variables with the same non-null count pointer: the count is at least 2.\<close>

lemma two_handles:
  fixes xs :: "nat list"
  assumes "i < length xs" and "j < length xs" and "i \<noteq> j" and "xs ! i = c" and "xs ! j = c"
  shows "2 \<le> count_list xs c"
proof -
  let ?ys = "xs[i := Suc c]"
  have "?ys ! j = c" using assms by simp
  moreover have "j < length ?ys" using assms(2) by simp
  ultimately have "c \<in> set ?ys" by (metis nth_mem)
  then have "0 < count_list ?ys c"
    using count_list_0_iff [of ?ys c] by auto
  moreover have "count_list ?ys c + 1 = count_list xs c"
    using count_list_update [OF assms(1), of "Suc c" c] assms(4) by simp
  ultimately show ?thesis by linarith
qed

lemma sole_handle:
  assumes inv: "invariant s" and i: "var s i = Some this"
    and one: "slot_at (free_store s) (refCount this) = Some (Cell 1)"
    and k: "var s k = Some u" and e: "refCount u = refCount this"
  shows "k = i"
proof (rule ccontr)
  assume ne: "k \<noteq> i"
  from i k have l: "i < length (vars s)" "k < length (vars s)" by (auto dest: var_SomeD)
  have "counts s ! i = refCount this" "counts s ! k = refCount this"
    using i k e l by (auto simp: counts_def dest: var_SomeD)
  with l ne have "2 \<le> count_list (counts s) (refCount this)"
    using two_handles [of i "counts s" k "refCount this"] by (simp add: counts_def)
  moreover from countedD [OF invariant_parts(1) [OF inv] one]
  have "handles_of s (refCount this) = 1" by simp
  ultimately show False by (simp add: handles_of_def)
qed

section \<open>What an operation frees\<close>

lemma kept_trans: "kept h h1 a \<Longrightarrow> kept h1 h2 a \<Longrightarrow> kept h h2 a"
  by (cases "slot_at h a") (auto simp: kept_def split: slot.splits)

lemma frees_onlyI:
  assumes "\<And>a. a \<le> length (mem (free_store s)) \<Longrightarrow>
        slot_at h' a = Some Freed \<or> kept (free_store s) h' a"
    and "length (mem (free_store s)) \<le> length (mem h')"
    and "\<exists>new. freed h' = freed (free_store s) @ new"
    and "\<And>c n. slot_at (free_store s) c = Some (Cell n) \<Longrightarrow> slot_at h' c = Some Freed \<Longrightarrow> n = 1"
    and "\<And>this. Some this \<in> set (vars s) \<Longrightarrow> ptr this \<noteq> 0 \<Longrightarrow>
        slot_at h' (ptr this) = Some Freed \<longleftrightarrow> slot_at h' (refCount this) = Some Freed"
    and "\<And>p. unowned s p \<Longrightarrow> is_object h' p"
  shows "frees_only s h'"
  unfolding frees_only_def using assms by blast

lemma frees_onlyD:
  assumes "frees_only s h'"
  shows "a \<le> length (mem (free_store s)) \<Longrightarrow>
        slot_at h' a = Some Freed \<or> kept (free_store s) h' a"
    and "length (mem (free_store s)) \<le> length (mem h')"
    and "\<exists>new. freed h' = freed (free_store s) @ new"
    and "slot_at (free_store s) c = Some (Cell n) \<Longrightarrow> slot_at h' c = Some Freed \<Longrightarrow> n = 1"
    and "Some this \<in> set (vars s) \<Longrightarrow> ptr this \<noteq> 0 \<Longrightarrow>
        slot_at h' (ptr this) = Some Freed \<longleftrightarrow> slot_at h' (refCount this) = Some Freed"
    and "unowned s p \<Longrightarrow> is_object h' p"
  using assms unfolding frees_only_def by blast+

lemma anchored_in_live:
  assumes "anchored_in h t"
  shows "refCount t \<noteq> 0 \<Longrightarrow> slot_at h (refCount t) \<noteq> Some Freed \<and> refCount t \<le> length (mem h)"
    and "ptr t \<noteq> 0 \<Longrightarrow> slot_at h (ptr t) \<noteq> Some Freed \<and> ptr t \<le> length (mem h) \<and>
           refCount t \<noteq> 0"
  using assms by (auto simp: anchored_in_def dest!: is_objectD dest: slot_at_SomeD)

lemma frees_only_refl:
  assumes inv: "invariant s"
  shows "frees_only s (free_store s)"
proof (rule frees_onlyI)
  fix t assume t: "Some t \<in> set (vars s)" and p: "ptr t \<noteq> 0"
  from anchoredD [OF invariant_parts(2) [OF inv] t] have a: "anchored_in (free_store s) t" .
  from anchored_in_live(2) [OF a p] anchored_in_live(1) [OF a]
  show "slot_at (free_store s) (ptr t) = Some Freed \<longleftrightarrow>
      slot_at (free_store s) (refCount t) = Some Freed" by blast
qed (simp_all add: kept_refl unowned_def)

lemma frees_only_then_quiet:
  assumes inv: "invariant s" and f: "frees_only s h1" and q: "quiet h1 h2"
  shows "frees_only s h2"
proof (rule frees_onlyI)
  let ?h = "free_store s"
  have len: "length (mem ?h) \<le> length (mem h1)" using f by (rule frees_onlyD(2))
  have k12: "kept h1 h2 a" if "a \<le> length (mem ?h)" for a
    using that len q by (simp add: quiet_def)
  have fr: "slot_at h2 a = Some Freed \<longleftrightarrow> slot_at h1 a = Some Freed"
    if "a \<le> length (mem ?h)" for a
    using k12 [OF that] by (rule kept_Freed_iff)
  show "length (mem ?h) \<le> length (mem h2)" using len q by (simp add: quiet_def)
  show "\<exists>new. freed h2 = freed ?h @ new"
    using frees_onlyD(3) [OF f] q by (simp add: quiet_def)
  show "slot_at h2 a = Some Freed \<or> kept ?h h2 a" if "a \<le> length (mem ?h)" for a
    using frees_onlyD(1) [OF f that] fr [OF that] k12 [OF that] by (blast intro: kept_trans)
  show "n = 1" if "slot_at ?h c = Some (Cell n)" "slot_at h2 c = Some Freed" for c n
  proof -
    from that(1) have "c \<le> length (mem ?h)" by (auto dest: slot_at_SomeD)
    with that(2) fr have "slot_at h1 c = Some Freed" by simp
    with f that(1) show ?thesis by (rule frees_onlyD(4))
  qed
  show "slot_at h2 (ptr t) = Some Freed \<longleftrightarrow> slot_at h2 (refCount t) = Some Freed"
    if t: "Some t \<in> set (vars s)" and p: "ptr t \<noteq> 0" for t
  proof -
    from anchoredD [OF invariant_parts(2) [OF inv] t] have a: "anchored_in ?h t" .
    from anchored_in_live(2) [OF a p] have "ptr t \<le> length (mem ?h)" "refCount t \<noteq> 0" by simp_all
    moreover from anchored_in_live(1) [OF a this(2)] have "refCount t \<le> length (mem ?h)" by simp
    ultimately show ?thesis using frees_onlyD(5) [OF f t p] fr by simp
  qed
  show "is_object h2 p" if "unowned s p" for p
    using frees_onlyD(6) [OF f that] q by (rule is_object_quiet)
qed

lemma frees_only_quiet:
  "invariant s \<Longrightarrow> quiet (free_store s) h' \<Longrightarrow> frees_only s h'"
  by (blast intro: frees_only_then_quiet frees_only_refl)

lemma frees_at_zeroI:
  assumes f: "frees_only s (free_store s')" and inv': "invariant s'"
  shows "frees_at_zero s s'"
  unfolding frees_at_zero_def
proof (intro conjI allI impI)
  show "frees_only s (free_store s')" by (rule f)
next
  fix c n assume c: "slot_at (free_store s) c = Some (Cell n)"
  then have c0: "c \<noteq> 0" and cl: "c \<le> length (mem (free_store s))"
    by (auto dest: slot_at_SomeD)
  show "slot_at (free_store s') c = Some Freed \<longleftrightarrow> n = 1 \<and> handles_of s' c = 0"
  proof
    assume fr: "slot_at (free_store s') c = Some Freed"
    have "handles_of s' c = 0"
    proof (rule ccontr)
      assume "handles_of s' c \<noteq> 0"
      then have "c \<in> set (counts s')" using handles_of_pos_iff [of s' c] by simp
      from counts_are_cells [OF inv' this c0] fr show False by simp
    qed
    with frees_onlyD(4) [OF f c fr] show "n = 1 \<and> handles_of s' c = 0" by simp
  next
    assume n: "n = 1 \<and> handles_of s' c = 0"
    from frees_onlyD(1) [OF f cl] show "slot_at (free_store s') c = Some Freed"
    proof
      assume "kept (free_store s) (free_store s') c"
      from keptD_cell [OF this c] obtain m where "slot_at (free_store s') c = Some (Cell m)" ..
      from countedD [OF invariant_parts(1) [OF inv'] this] n show ?thesis by simp
    qed
  qed
qed

section \<open>Releasing a handle variable\<close>

lemma cell_not_object: "slot_at h a = Some (Cell n) \<Longrightarrow> is_object h b \<Longrightarrow> a \<noteq> b"
  by (auto simp: is_object_def)

lemma kept_same: "slot_at h' a = slot_at h a \<Longrightarrow> kept h h' a"
  by (simp add: kept_def split: option.splits slot.splits)

lemma release_last_effect:
  assumes one: "slot_at h (refCount this) = Some (Cell 1)"
    and o: "ptr this = 0 \<or> is_object h (ptr this)"
  shows "\<exists>h'. release this h = Inr (TSharedPointer_default, h') \<and>
     length (mem h') = length (mem h) \<and>
     freed h' = freed h @ (if ptr this = 0 then [] else [ptr this]) @ [refCount this] \<and>
     (\<forall>a. slot_at h' a =
        (if a = refCount this \<or> (a = ptr this \<and> ptr this \<noteq> 0) then Some Freed else slot_at h a))"
proof (cases "ptr this = 0")
  case True
  from one have rc: "refCount this \<noteq> 0" by (rule cell_nonnull)
  from release_last_null [OF one True] one rc True show ?thesis
    by (simp add: slot_at_free_slot slot_at_write_cell)
next
  case False
  with o obtain cs where cs: "slot_at h (ptr this) = Some (Obj cs)" by (auto dest: is_objectD)
  from one have rc: "refCount this \<noteq> 0" by (rule cell_nonnull)
  from one cs have ne: "ptr this \<noteq> refCount this" by auto
  from release_last_obj [OF one cs] one cs rc False ne show ?thesis
    by (simp add: slot_at_free_slot slot_at_write_cell)
qed

lemma unowned_after_release:
  assumes u: "unowned s p" and f: "frees_only s h'"
  shows "unowned \<lparr>free_store = h', vars = (vars s)[i := Some TSharedPointer_default]\<rparr> p"
proof -
  from u have p0: "p \<noteq> 0" by (auto simp: unowned_def dest!: is_objectD dest: slot_at_SomeD)
  have "set (targets \<lparr>free_store = h', vars = (vars s)[i := Some TSharedPointer_default]\<rparr>)
      \<subseteq> insert 0 (set (targets s))"
    unfolding targets_def by (auto simp: map_update dest!: in_update_cases)
  with u p0 have "p \<notin> set (targets \<lparr>free_store = h',
      vars = (vars s)[i := Some TSharedPointer_default]\<rparr>)"
    by (auto simp: unowned_def)
  with frees_onlyD(6) [OF f u] show ?thesis by (simp add: unowned_def)
qed

text \<open>Releasing the handle in variable \<open>i\<close>: the three ways \<open>release\<close> can go.\<close>

lemma release_var_empty:
  assumes inv: "invariant s" and i: "var s i = Some this" and rc: "refCount this = 0"
  shows "release this (free_store s) = Inr (TSharedPointer_default, free_store s) \<and>
     invariant \<lparr>free_store = free_store s, vars = (vars s)[i := Some TSharedPointer_default]\<rparr> \<and>
     frees_only s (free_store s)"
proof -
  let ?s' = "\<lparr>free_store = free_store s, vars = (vars s)[i := Some TSharedPointer_default]\<rparr>"
  have "invariant ?s'"
    using invariant_replace_empty [OF inv i rc, of ?s' "Some TSharedPointer_default"] by simp
  with rc inv show ?thesis by (simp add: release_empty frees_only_refl)
qed

lemma release_var_shared:
  assumes inv: "invariant s" and i: "var s i = Some this"
    and n: "slot_at (free_store s) (refCount this) = Some (Cell n)" and n1: "n \<noteq> 1"
  shows "release this (free_store s) =
       Inr (TSharedPointer_default, write_cell (refCount this) (n - 1) (free_store s)) \<and>
     invariant \<lparr>free_store = write_cell (refCount this) (n - 1) (free_store s),
       vars = (vars s)[i := Some TSharedPointer_default]\<rparr> \<and>
     frees_only s (write_cell (refCount this) (n - 1) (free_store s))"
proof -
  let ?h = "free_store s"
  let ?rc = "refCount this"
  let ?h' = "write_cell ?rc (n - 1) ?h"
  let ?v = "Some TSharedPointer_default"
  let ?s' = "\<lparr>free_store = ?h', vars = (vars s)[i := ?v]\<rparr>"
  from i have il: "i < length (vars s)" and vi: "vars s ! i = Some this" by (auto dest: var_SomeD)
  from countedD [OF invariant_parts(1) [OF inv] n] n1 have n2: "2 \<le> n" by simp
  then have "n \<noteq> INT_MIN" by (simp add: INT_MIN_def)
  with n n1 have r: "release this ?h = Inr (TSharedPointer_default, ?h')" by (rule release_shared)
  from n have rc0: "?rc \<noteq> 0" by (rule cell_nonnull)
  have q: "quiet ?h ?h'" using n by (rule quiet_write_cell)
  have "invariant ?s'"
  proof (rule invariantI)
    show "counted ?s'"
    proof (rule counted_update [OF invariant_parts(1) [OF inv] il])
      show "vars ?s' = (vars s)[i := ?v]" by simp
    next
      fix c n' assume "slot_at (free_store ?s') c = Some (Cell n')"
      then have c: "slot_at ?h' c = Some (Cell n')" by simp
      then have c0: "c \<noteq> 0" by (rule cell_nonnull)
      show "1 \<le> n' \<and>
          ((\<exists>m. slot_at ?h c = Some (Cell m) \<and>
                n' + (if count_of (vars s ! i) = c then 1 else 0)
                  = m + (if count_of ?v = c then 1 else 0)) \<or>
           (c \<notin> set (counts s) \<and> count_of ?v = c \<and> n' = 1))"
      proof (cases "c = ?rc")
        case True
        with c n have "n' = n - 1" by (simp add: slot_at_write_cell)
        with True n n2 c0 show ?thesis by (simp add: vi)
      next
        case False
        with c have c': "slot_at ?h c = Some (Cell n')" by (simp add: slot_at_write_cell)
        from countedD [OF invariant_parts(1) [OF inv] c'] have "1 \<le> n'" by simp
        with c' False c0 show ?thesis by (simp add: vi)
      qed
    qed
    show "anchored ?s'"
    proof (rule anchored_update [OF invariant_parts(2) [OF inv]])
      show "vars ?s' = (vars s)[i := ?v]" by simp
    next
      fix k u assume "anchored_in ?h u"
      then show "anchored_in (free_store ?s') u" using q by (simp add: anchored_in_quiet)
    next
      fix u assume "?v = Some u"
      then show "anchored_in (free_store ?s') u" by auto
    qed
    show "grouped ?s'"
    proof (rule grouped_update [OF invariant_parts(3) [OF inv]])
      show "vars ?s' = (vars s)[i := ?v]" by simp
    next
      fix u k w
      assume "?v = Some u" and "ptr u \<noteq> 0 \<or> ptr w \<noteq> 0" and "ptr w = ptr u"
      then have False by auto
      then show "refCount w = refCount u" ..
    qed
    show "logged (free_store ?s')"
      using logged_quiet [OF invariant_parts(4) [OF inv] q] by simp
  qed
  with r frees_only_quiet [OF inv q] show ?thesis by simp
qed

text \<open>The last handle of its group: the target and the count cell are deleted.\<close>

lemma release_var_last:
  assumes inv: "invariant s" and i: "var s i = Some this"
    and one: "slot_at (free_store s) (refCount this) = Some (Cell 1)"
  shows "\<exists>h'. release this (free_store s) = Inr (TSharedPointer_default, h') \<and>
     invariant \<lparr>free_store = h', vars = (vars s)[i := Some TSharedPointer_default]\<rparr> \<and>
     frees_only s h' \<and> (\<forall>c. count_at h' c \<le> count_at (free_store s) c)"
proof -
  let ?h = "free_store s"
  let ?rc = "refCount this"
  let ?p = "ptr this"
  let ?v = "Some TSharedPointer_default"
  from i have il: "i < length (vars s)" and vi: "vars s ! i = Some this" by (auto dest: var_SomeD)
  have at: "anchored_in ?h this" using inv i by (rule var_anchored)
  then have o: "?p = 0 \<or> is_object ?h ?p" by (auto simp: anchored_in_def)
  from one have rc0: "?rc \<noteq> 0" by (rule cell_nonnull)
  from release_last_effect [OF one o] obtain h' where
    r: "release this ?h = Inr (TSharedPointer_default, h')" and
    len: "length (mem h') = length (mem ?h)" and
    log: "freed h' = freed ?h @ (if ?p = 0 then [] else [?p]) @ [?rc]" and
    S: "\<And>a. slot_at h' a =
        (if a = ?rc \<or> (a = ?p \<and> ?p \<noteq> 0) then Some Freed else slot_at ?h a)"
    by blast
  let ?s' = "\<lparr>free_store = h', vars = (vars s)[i := ?v]\<rparr>"
  have cell_same: "slot_at h' c = Some (Cell m)" and cell_other: "c \<noteq> ?rc"
    if "slot_at ?h c = Some (Cell m)" "c \<noteq> ?rc" for c m
  proof -
    have "c \<noteq> ?p" if "?p \<noteq> 0"
      using o that cell_not_object [OF \<open>slot_at ?h c = Some (Cell m)\<close>] by auto
    with that show "slot_at h' c = Some (Cell m)" by (auto simp: S)
    show "c \<noteq> ?rc" by (rule that(2))
  qed
  have obj_same: "is_object h' q" if "is_object ?h q" "q \<noteq> ?p" for q
  proof -
    from cell_not_object [OF one that(1)] have "q \<noteq> ?rc" by simp
    with that show ?thesis by (simp add: is_object_def S)
  qed
  have others: "refCount t \<noteq> ?rc" if "k \<noteq> i" "var s k = Some t" for k t
    using sole_handle [OF inv i one that(2)] that(1) by auto
  have others_target: "ptr t \<noteq> ?p" if "k \<noteq> i" "var s k = Some t" "ptr t \<noteq> 0" for k t
  proof
    assume e: "ptr t = ?p"
    from groupedD [OF invariant_parts(3) [OF inv] var_in_vars [OF that(2)] var_in_vars [OF i]
        that(3) e]
    have "refCount t = ?rc" .
    with others [OF that(1,2)] show False by simp
  qed
  have "invariant ?s'"
  proof (rule invariantI)
    show "counted ?s'"
    proof (rule counted_update [OF invariant_parts(1) [OF inv] il])
      show "vars ?s' = (vars s)[i := ?v]" by simp
    next
      fix c n' assume "slot_at (free_store ?s') c = Some (Cell n')"
      then have c: "slot_at h' c = Some (Cell n')" by simp
      then have c0: "c \<noteq> 0" by (rule cell_nonnull)
      from c have ne: "c \<noteq> ?rc" and c': "slot_at ?h c = Some (Cell n')"
        by (auto simp: S split: if_splits)
      from countedD [OF invariant_parts(1) [OF inv] c'] have "1 \<le> n'" by simp
      with c' ne c0 show "1 \<le> n' \<and>
          ((\<exists>m. slot_at ?h c = Some (Cell m) \<and>
                n' + (if count_of (vars s ! i) = c then 1 else 0)
                  = m + (if count_of ?v = c then 1 else 0)) \<or>
           (c \<notin> set (counts s) \<and> count_of ?v = c \<and> n' = 1))"
        by (auto simp: vi)
    qed
    show "anchored ?s'"
    proof (rule anchored_update [OF invariant_parts(2) [OF inv]])
      show "vars ?s' = (vars s)[i := ?v]" by simp
    next
      fix k t assume k: "k \<noteq> i" "var s k = Some t" and a: "anchored_in ?h t"
      have "\<exists>m. slot_at h' (refCount t) = Some (Cell m)" if "refCount t \<noteq> 0"
      proof -
        from a that obtain m where "slot_at ?h (refCount t) = Some (Cell m)"
          by (auto simp: anchored_in_def)
        from cell_same [OF this others [OF k]] show ?thesis ..
      qed
      moreover have "is_object h' (ptr t)" if "ptr t \<noteq> 0"
      proof -
        from a that have "is_object ?h (ptr t)" by (simp add: anchored_in_def)
        then show ?thesis using others_target [OF k that] by (rule obj_same)
      qed
      ultimately show "anchored_in (free_store ?s') t"
        using a by (simp add: anchored_in_def)
    next
      fix u assume "?v = Some u"
      then show "anchored_in (free_store ?s') u" by auto
    qed
    show "grouped ?s'"
    proof (rule grouped_update [OF invariant_parts(3) [OF inv]])
      show "vars ?s' = (vars s)[i := ?v]" by simp
    next
      fix u k w
      assume "?v = Some u" and "ptr u \<noteq> 0 \<or> ptr w \<noteq> 0" and "ptr w = ptr u"
      then have False by auto
      then show "refCount w = refCount u" ..
    qed
    show "logged (free_store ?s')"
    proof -
      from invariant_parts(4) [OF inv] have d: "distinct (freed ?h)"
        and m: "\<And>a. a \<in> set (freed ?h) \<longleftrightarrow> slot_at ?h a = Some Freed"
        by (simp_all add: logged_def)
      from one have rcn: "?rc \<notin> set (freed ?h)" by (simp add: m)
      have pn: "?p \<notin> set (freed ?h)" if "?p \<noteq> 0"
        using o that by (auto simp: m dest: is_objectD)
      have pr: "?p \<noteq> ?rc" if "?p \<noteq> 0"
      proof -
        from o that have "is_object ?h ?p" by simp
        from cell_not_object [OF one this] show ?thesis by (rule not_sym)
      qed
      have "distinct (freed h')" using d rcn pn pr by (auto simp: log)
      moreover have "a \<in> set (freed h') \<longleftrightarrow> slot_at h' a = Some Freed" for a
        by (auto simp: log S m)
      ultimately show ?thesis by (simp add: logged_def)
    qed
  qed
  moreover have "frees_only s h'"
  proof (rule frees_onlyI)
    show "slot_at h' a = Some Freed \<or> kept ?h h' a" for a
    proof (cases "a = ?rc \<or> (a = ?p \<and> ?p \<noteq> 0)")
      case True
      then show ?thesis by (simp add: S)
    next
      case False
      then have "slot_at h' a = slot_at ?h a" by (auto simp: S)
      then show ?thesis by (simp add: kept_same)
    qed
    show "length (mem ?h) \<le> length (mem h')" by (simp add: len)
    show "\<exists>new. freed h' = freed ?h @ new" by (simp add: log)
    show "n = 1" if c: "slot_at ?h c = Some (Cell n)" and f: "slot_at h' c = Some Freed" for c n
    proof (cases "c = ?rc")
      case True
      with c one show ?thesis by simp
    next
      case False
      from cell_same [OF c False] f show ?thesis by simp
    qed
    show "slot_at h' (ptr t) = Some Freed \<longleftrightarrow> slot_at h' (refCount t) = Some Freed"
      if t: "Some t \<in> set (vars s)" and p: "ptr t \<noteq> 0" for t
    proof -
      from t obtain k where k: "var s k = Some t" by (auto simp: in_vars_iff)
      have a: "anchored_in ?h t" using inv k by (rule var_anchored)
      with p have ot: "is_object ?h (ptr t)" and rt: "refCount t \<noteq> 0"
        by (simp_all add: anchored_in_def)
      from a rt obtain m where m: "slot_at ?h (refCount t) = Some (Cell m)"
        by (auto simp: anchored_in_def)
      show ?thesis
      proof (cases "k = i")
        case True
        with k i have "t = this" by simp
        with p show ?thesis by (simp add: S)
      next
        case False
        from obj_same [OF ot others_target [OF False k p]]
        have "slot_at h' (ptr t) \<noteq> Some Freed" by (auto dest: is_objectD)
        moreover from cell_same [OF m others [OF False k]]
        have "slot_at h' (refCount t) \<noteq> Some Freed" by simp
        ultimately show ?thesis by simp
      qed
    qed
    show "is_object h' q" if u: "unowned s q" for q
    proof -
      from u have oq: "is_object ?h q" and nq: "q \<notin> set (targets s)"
        by (simp_all add: unowned_def)
      from var_target_in_targets [OF i] nq have "q \<noteq> ?p" by auto
      with oq show ?thesis by (rule obj_same)
    qed
  qed
  moreover have "count_at h' c \<le> count_at ?h c" for c
  proof (cases "c = ?rc \<or> (c = ?p \<and> ?p \<noteq> 0)")
    case False
    then have "slot_at h' c = slot_at ?h c" by (auto simp: S)
    then show ?thesis by (simp add: count_at_def)
  next
    case True
    then have z: "count_at h' c = 0" by (simp add: count_at_def S)
    from True show ?thesis
    proof
      assume "c = ?rc"
      with one z show ?thesis by (simp add: count_at_def)
    next
      assume "c = ?p \<and> ?p \<noteq> 0"
      with o have "is_object ?h c" by auto
      with z show ?thesis by (auto simp: count_at_def dest!: is_objectD)
    qed
  qed
  ultimately show ?thesis using r by blast
qed

lemma release_var:
  assumes inv: "invariant s" and i: "var s i = Some this"
  shows "\<exists>h'. release this (free_store s) = Inr (TSharedPointer_default, h') \<and>
     invariant \<lparr>free_store = h', vars = (vars s)[i := Some TSharedPointer_default]\<rparr> \<and>
     frees_only s h' \<and> (\<forall>c. count_at h' c \<le> count_at (free_store s) c)"
proof (cases "refCount this = 0")
  case True
  from release_var_empty [OF inv i True] show ?thesis by auto
next
  case False
  have "anchored_in (free_store s) this" using inv i by (rule var_anchored)
  with False obtain n where n: "slot_at (free_store s) (refCount this) = Some (Cell n)"
    by (auto simp: anchored_in_def)
  show ?thesis
  proof (cases "n = 1")
    case True
    with n show ?thesis using release_var_last [OF inv i] by simp
  next
    case False
    have "count_at (write_cell (refCount this) (n - 1) (free_store s)) c
        \<le> count_at (free_store s) c" for c
    proof (cases "c = refCount this")
      case True
      moreover from n have "count_at (free_store s) (refCount this) = n"
        by (simp add: count_at_def)
      ultimately show ?thesis using n by (simp add: count_at_write_cell)
    next
      case False
      then show ?thesis by (simp add: count_at_write_cell)
    qed
    with release_var_shared [OF inv i n False] show ?thesis by blast
  qed
qed

section \<open>Every operation keeps the invariant\<close>

lemma step_New:
  assumes inv: "invariant s"
  shows "\<exists>s'. step (New classes) s = Inr s' \<and> invariant s' \<and> frees_at_zero s s'"
proof -
  let ?h' = "free_store s\<lparr>mem := mem (free_store s) @ [Obj classes]\<rparr>"
  let ?s' = "s\<lparr>free_store := ?h'\<rparr>"
  have st: "step (New classes) s = Inr ?s'" by (simp add: new_obj_def)
  have q: "quiet (free_store s) ?h'" by (rule quiet_append) simp
  have "invariant ?s'"
  proof (rule invariant_same_vars [OF inv])
    show "quiet (free_store s) (free_store ?s')" using q by simp
    show "slot_at (free_store s) c = Some (Cell n)"
      if "slot_at (free_store ?s') c = Some (Cell n)" for c n
      using that by (simp add: slot_at_append split: if_splits)
  qed simp
  moreover have "frees_only s (free_store ?s')" using frees_only_quiet [OF inv q] by simp
  ultimately show ?thesis using st by (blast intro: frees_at_zeroI)
qed

lemma step_Default:
  assumes inv: "invariant s"
  shows "\<exists>s'. step Default s = Inr s' \<and> invariant s' \<and> frees_at_zero s s'"
proof -
  let ?s' = "s\<lparr>vars := vars s @ [Some TSharedPointer_default]\<rparr>"
  have "invariant ?s'" by (rule invariant_push [OF inv]) simp_all
  moreover have "frees_only s (free_store ?s')" using frees_only_refl [OF inv] by simp
  ultimately show ?thesis by (auto intro: frees_at_zeroI)
qed

text \<open>The state in which a constructor finds its own, still empty, variable.\<close>

lemma pushed:
  assumes inv: "invariant s"
  defines "s0 \<equiv> s\<lparr>vars := vars s @ [Some TSharedPointer_default]\<rparr>"
  shows "invariant s0" and "free_store s0 = free_store s"
    and "var s0 (length (vars s)) = Some TSharedPointer_default"
    and "\<And>j. j < length (vars s) \<Longrightarrow> var s0 j = var s j"
    and "(vars s0)[length (vars s) := v] = vars s @ [v]"
    and "\<And>p. unowned s p \<Longrightarrow> unowned s0 p"
proof -
  show "invariant s0" unfolding s0_def by (rule invariant_push [OF inv]) simp_all
  show "free_store s0 = free_store s" by (simp add: s0_def)
  show "var s0 (length (vars s)) = Some TSharedPointer_default"
    by (simp add: s0_def var_def)
  show "var s0 j = var s j" if "j < length (vars s)" for j
    using that by (simp add: s0_def var_def nth_append)
  show "(vars s0)[length (vars s) := v] = vars s @ [v]" by (simp add: s0_def)
  show "unowned s0 p" if "unowned s p" for p
  proof -
    from that have "p \<noteq> 0" by (auto simp: unowned_def dest!: is_objectD dest: slot_at_SomeD)
    with that show ?thesis by (simp add: unowned_def targets_def s0_def)
  qed
qed

lemma step_FromRaw:
  assumes inv: "invariant s" and adm: "admissible s (FromRaw p)"
  shows "\<exists>s'. step (FromRaw p) s = Inr s' \<and> invariant s' \<and> frees_at_zero s s'"
proof -
  let ?s0 = "s\<lparr>vars := vars s @ [Some TSharedPointer_default]\<rparr>"
  let ?h' = "free_store s\<lparr>mem := mem (free_store s) @ [Cell 1]\<rparr>"
  let ?s' = "\<lparr>free_store = ?h',
      vars = vars s @ [Some \<lparr>ptr = p, refCount = Suc (length (mem (free_store s)))\<rparr>]\<rparr>"
  note P = pushed [OF inv]
  have st: "step (FromRaw p) s = Inr ?s'"
    by (simp add: TSharedPointer_raw_def new_int_def)
  from adm have "p = 0 \<or> unowned ?s0 p" using P(6) by auto
  from invariant_fresh [OF P(1) P(3) _ this]
  have "quiet (free_store s) ?h'" and "invariant ?s'" by (simp_all add: P(2) P(5))
  then show ?thesis using st frees_only_quiet [OF inv] by (auto intro: frees_at_zeroI)
qed

lemma shared_eta [simp]: "\<lparr>ptr = ptr (t::shared), refCount = refCount t\<rparr> = t"
  by simp

lemma step_Copy:
  assumes inv: "invariant s" and adm: "admissible s (Copy j)"
  shows "\<exists>s'. step (Copy j) s = Inr s' \<and> invariant s' \<and> frees_at_zero s s'"
proof -
  let ?s0 = "s\<lparr>vars := vars s @ [Some TSharedPointer_default]\<rparr>"
  note P = pushed [OF inv]
  from adm obtain other where j: "var s j = Some other"
    and room: "count_at (free_store s) (refCount other) < INT_MAX"
    by (auto split: option.splits)
  from j have "j < length (vars s)" by (auto dest: var_SomeD)
  with j have j0: "var ?s0 j = Some other" by (simp add: P(4))
  from room have room0: "count_at (free_store ?s0) (refCount other) < INT_MAX" by (simp add: P(2))
  from invariant_attach [OF P(1) P(3) _ j0 room0] obtain h' where
    inc: "incr_if (refCount other) (free_store s) = Inr h'" and
    q: "quiet (free_store s) h'" and
    inv': "invariant \<lparr>free_store = h', vars = vars s @ [Some other]\<rparr>"
    by (auto simp: P(2) P(5))
  have st: "step (Copy j) s = Inr \<lparr>free_store = h', vars = vars s @ [Some other]\<rparr>"
    using j inc by (simp add: TSharedPointer_copy_def)
  show ?thesis using st inv' frees_only_quiet [OF inv q] by (auto intro: frees_at_zeroI)
qed

lemma after_release:
  fixes h' :: "'c heap"
  assumes "var s i = Some this"
  defines "s1 \<equiv> \<lparr>free_store = h', vars = (vars s)[i := Some TSharedPointer_default]\<rparr>"
  shows "var s1 i = Some TSharedPointer_default"
    and "\<And>j. j \<noteq> i \<Longrightarrow> var s1 j = var s j"
    and "free_store s1 = h'"
    and "(vars s1)[i := v] = (vars s)[i := v]"
  using assms by (auto simp: var_def split: if_splits)

lemma shared_overwrite [simp]:
  "(t::shared)\<lparr>ptr := ptr u, refCount := refCount u\<rparr> = u"
  by (cases u) simp

lemma step_Move:
  assumes inv: "invariant s" and adm: "admissible s (Move j)"
  shows "\<exists>s'. step (Move j) s = Inr s' \<and> invariant s' \<and> frees_at_zero s s'"
proof -
  let ?s0 = "s\<lparr>vars := vars s @ [Some TSharedPointer_default]\<rparr>"
  note P = pushed [OF inv]
  from adm obtain other where j: "var s j = Some other" by auto
  then have jl: "j < length (vars s)" and vj: "vars s ! j = Some other"
    by (auto dest: var_SomeD)
  let ?s' = "s\<lparr>vars := (vars s)[j := Some TSharedPointer_default] @ [Some other]\<rparr>"
  have st: "step (Move j) s = Inr ?s'"
    using j by (simp add: TSharedPointer_move_def)
  have "Some other \<in># mset (vars s)" using jl vj by (metis nth_mem set_mset_mset)
  then have "mset (vars ?s') = mset (vars ?s0)"
    using jl vj by (simp add: mset_update)
  from invariant_perm [OF P(1) this] have "invariant ?s'" by simp
  moreover have "frees_only s (free_store ?s')" using frees_only_refl [OF inv] by simp
  ultimately show ?thesis using st by (blast intro: frees_at_zeroI)
qed

lemma step_Swap:
  assumes inv: "invariant s" and adm: "admissible s (Swap i j)"
  shows "\<exists>s'. step (Swap i j) s = Inr s' \<and> invariant s' \<and> frees_at_zero s s'"
proof -
  from adm obtain this other where i: "var s i = Some this" and j: "var s j = Some other"
    by auto
  then have l: "i < length (vars s)" "j < length (vars s)"
    and v: "vars s ! i = Some this" "vars s ! j = Some other"
    by (auto dest: var_SomeD)
  let ?s' = "s\<lparr>vars := (vars s)[i := vars s ! j, j := vars s ! i]\<rparr>"
  have st: "step (Swap i j) s = Inr ?s'"
    using i j v by (simp add: swap_def)
  have "mset ((vars s)[i := vars s ! j, j := vars s ! i]) = mset (vars s)"
    by (rule mset_swap [OF l(2) l(1)])
  then have "mset (vars ?s') = mset (vars s)" by simp
  from invariant_perm [OF inv this] have "invariant ?s'" by simp
  moreover have "frees_only s (free_store ?s')" using frees_only_refl [OF inv] by simp
  ultimately show ?thesis using st by (blast intro: frees_at_zeroI)
qed

lemma step_Destroy:
  assumes inv: "invariant s" and adm: "admissible s (Destroy i)"
  shows "\<exists>s'. step (Destroy i) s = Inr s' \<and> invariant s' \<and> frees_at_zero s s'"
proof -
  from adm obtain this where i: "var s i = Some this" by auto
  from release_var [OF inv i] obtain h' where
    r: "release this (free_store s) = Inr (TSharedPointer_default, h')" and
    inv1: "invariant \<lparr>free_store = h', vars = (vars s)[i := Some TSharedPointer_default]\<rparr>" and
    f: "frees_only s h'"
    by blast
  let ?s1 = "\<lparr>free_store = h', vars = (vars s)[i := Some TSharedPointer_default]\<rparr>"
  let ?s' = "\<lparr>free_store = h', vars = (vars s)[i := None]\<rparr>"
  note R = after_release [OF i, where h' = h']
  have st: "step (Destroy i) s = Inr ?s'" using i r by simp
  have "invariant ?s'"
    by (rule invariant_replace_empty [OF inv1 R(1), of _ None]) (simp_all add: R(4))
  with st f show ?thesis by (auto intro: frees_at_zeroI)
qed

lemma step_Reset:
  assumes inv: "invariant s" and adm: "admissible s (Reset i p)"
  shows "\<exists>s'. step (Reset i p) s = Inr s' \<and> invariant s' \<and> frees_at_zero s s'"
proof -
  from adm obtain this where i: "var s i = Some this" and p: "p = 0 \<or> unowned s p" by auto
  from release_var [OF inv i] obtain h' where
    r: "release this (free_store s) = Inr (TSharedPointer_default, h')" and
    inv1: "invariant \<lparr>free_store = h', vars = (vars s)[i := Some TSharedPointer_default]\<rparr>" and
    f: "frees_only s h'"
    by blast
  let ?s1 = "\<lparr>free_store = h', vars = (vars s)[i := Some TSharedPointer_default]\<rparr>"
  note R = after_release [OF i, where h' = h']
  show ?thesis
  proof (cases "p = 0")
    case True
    then have "step (Reset i p) s = Inr ?s1" using i r by (simp add: reset_def)
    with inv1 f show ?thesis by (auto intro: frees_at_zeroI)
  next
    case False
    let ?h2 = "h'\<lparr>mem := mem h' @ [Cell 1]\<rparr>"
    let ?s2 = "\<lparr>free_store = ?h2,
        vars = (vars s)[i := Some \<lparr>ptr = p, refCount = Suc (length (mem h'))\<rparr>]\<rparr>"
    from False p have "unowned ?s1 p" using unowned_after_release [OF _ f] by simp
    then have "p = 0 \<or> unowned ?s1 p" ..
    from invariant_fresh [OF inv1 R(1) _ this]
    have q: "quiet h' ?h2" and inv2: "invariant ?s2" by (simp_all add: R(4))
    have st: "step (Reset i p) s = Inr ?s2"
      using False i r by (simp add: reset_def new_int_def)
    from frees_only_then_quiet [OF inv f q] have "frees_only s (free_store ?s2)" by simp
    with st inv2 show ?thesis by (blast intro: frees_at_zeroI)
  qed
qed

lemma step_CopyAssign:
  assumes inv: "invariant s" and adm: "admissible s (CopyAssign i j)"
  shows "\<exists>s'. step (CopyAssign i j) s = Inr s' \<and> invariant s' \<and> frees_at_zero s s'"
proof -
  from adm obtain this other where i: "var s i = Some this" and j: "var s j = Some other"
    and room: "count_at (free_store s) (refCount other) < INT_MAX"
    by (auto split: option.splits)
  show ?thesis
  proof (cases "i = j")
    case True
    then have "step (CopyAssign i j) s = Inr s" using i by simp
    with inv frees_only_refl [OF inv] show ?thesis by (auto intro: frees_at_zeroI)
  next
    case False
    from release_var [OF inv i] obtain h' where
      r: "release this (free_store s) = Inr (TSharedPointer_default, h')" and
      inv1: "invariant \<lparr>free_store = h', vars = (vars s)[i := Some TSharedPointer_default]\<rparr>" and
      f: "frees_only s h'" and
      le: "\<And>c. count_at h' c \<le> count_at (free_store s) c"
      by blast
    let ?s1 = "\<lparr>free_store = h', vars = (vars s)[i := Some TSharedPointer_default]\<rparr>"
    note R = after_release [OF i, where h' = h']
    from False j have j1: "var ?s1 j = Some other" by (simp add: R(2))
    from le [of "refCount other"] room
    have room1: "count_at (free_store ?s1) (refCount other) < INT_MAX" by simp
    from invariant_attach [OF inv1 R(1) _ j1 room1] obtain h2 where
      inc: "incr_if (refCount other) h' = Inr h2" and q: "quiet h' h2" and
      inv2: "invariant \<lparr>free_store = h2, vars = (vars s)[i := Some other]\<rparr>"
      by (auto simp: R(4))
    have st: "step (CopyAssign i j) s =
        Inr \<lparr>free_store = h2, vars = (vars s)[i := Some other]\<rparr>"
      using False i j r inc by (simp add: copy_assign_def)
    from frees_only_then_quiet [OF inv f q]
    have "frees_only s (free_store \<lparr>free_store = h2, vars = (vars s)[i := Some other]\<rparr>)"
      by simp
    with st inv2 show ?thesis by (blast intro: frees_at_zeroI)
  qed
qed

lemma step_MoveAssign:
  assumes inv: "invariant s" and adm: "admissible s (MoveAssign i j)"
  shows "\<exists>s'. step (MoveAssign i j) s = Inr s' \<and> invariant s' \<and> frees_at_zero s s'"
proof -
  from adm obtain this other where i: "var s i = Some this" and j: "var s j = Some other"
    by auto
  then have l: "i < length (vars s)" "j < length (vars s)"
    and vj: "vars s ! j = Some other"
    by (auto dest: var_SomeD)
  show ?thesis
  proof (cases "i = j")
    case True
    then have "step (MoveAssign i j) s = Inr s" using i by simp
    with inv frees_only_refl [OF inv] show ?thesis by (auto intro: frees_at_zeroI)
  next
    case False
    from release_var [OF inv i] obtain h' where
      r: "release this (free_store s) = Inr (TSharedPointer_default, h')" and
      inv1: "invariant \<lparr>free_store = h', vars = (vars s)[i := Some TSharedPointer_default]\<rparr>" and
      f: "frees_only s h'"
      by blast
    let ?vs1 = "(vars s)[i := Some TSharedPointer_default]"
    let ?s1 = "\<lparr>free_store = h', vars = ?vs1\<rparr>"
    let ?s' = "\<lparr>free_store = h',
        vars = (vars s)[i := Some other, j := Some TSharedPointer_default]\<rparr>"
    have st: "step (MoveAssign i j) s = Inr ?s'"
      using False i j r by (simp add: move_assign_def)
    have "vars ?s' = ?vs1[j := ?vs1 ! i, i := ?vs1 ! j]"
      using False l vj by (simp add: list_update_swap [of i j])
    moreover have "mset (?vs1[j := ?vs1 ! i, i := ?vs1 ! j]) = mset ?vs1"
      by (rule mset_swap) (simp_all add: l)
    ultimately have "mset (vars ?s') = mset (vars ?s1)" by simp
    from invariant_perm [OF inv1 this] have "invariant ?s'" by simp
    with st f show ?thesis by (auto intro: frees_at_zeroI)
  qed
qed

lemma step_preserves:
  assumes "invariant s" and "admissible s x"
  shows "\<exists>s'. step x s = Inr s' \<and> invariant s' \<and> frees_at_zero s s'"
proof (cases x)
  case (New classes)
  with assms show ?thesis using step_New by blast
next
  case Default
  with assms show ?thesis using step_Default by blast
next
  case (FromRaw p)
  with assms show ?thesis using step_FromRaw by blast
next
  case (Copy j)
  with assms show ?thesis using step_Copy by blast
next
  case (Move j)
  with assms show ?thesis using step_Move by blast
next
  case (CopyAssign i j)
  with assms show ?thesis using step_CopyAssign by blast
next
  case (MoveAssign i j)
  with assms show ?thesis using step_MoveAssign by blast
next
  case (Reset i p)
  with assms show ?thesis using step_Reset by blast
next
  case (Swap i j)
  with assms show ?thesis using step_Swap by blast
next
  case (Destroy i)
  with assms show ?thesis using step_Destroy by blast
qed

lemma invariant_init: "invariant init"
  by (simp add: invariant_def counted_def anchored_def grouped_def logged_def init_def
      empty_heap_def slot_at_def)

text \<open>
  Claim C1. From a state that satisfies the ownership invariant (the initial state does),
  every admissible program of constructions from a raw pointer, copy and move
  constructions, copy and move assignments, \<open>reset\<close>, \<open>swap\<close> and destructions runs without
  a fault, and after each of its operations:
  \<^item> every live count cell holds the number of live handle variables whose count pointer
    it is (\<open>counted\<close>), the targets and counts of the live handles are alive, and no
    address has been deleted twice (\<open>logged\<close>);
  \<^item> the operation has freed a count cell exactly when that cell held 1 and no handle
    refers to it afterwards, and has freed the target of a handle exactly when it has
    freed the handle's count cell (\<open>frees_at_zero\<close>).
\<close>

theorem shared_count_invariant:
  assumes "invariant s" and "admissible_run xs s"
  shows "\<exists>ss. run xs s = Inr ss \<and> length ss = length xs \<and>
     (\<forall>k < length ss. invariant (ss ! k) \<and> frees_at_zero ((s # ss) ! k) (ss ! k))"
  using assms
proof (induction xs arbitrary: s)
  case Nil
  show ?case by simp
next
  case (Cons x xs)
  from Cons.prems have adm: "admissible s x" by simp
  from step_preserves [OF Cons.prems(1) adm] obtain s' where
    st: "step x s = Inr s'" and inv': "invariant s'" and f: "frees_at_zero s s'" by blast
  from Cons.prems(2) st have "admissible_run xs s'" by simp
  from Cons.IH [OF inv' this] obtain ss where
    r: "run xs s' = Inr ss" and len: "length ss = length xs" and
    all: "\<And>k. k < length ss \<Longrightarrow> invariant (ss ! k) \<and> frees_at_zero ((s' # ss) ! k) (ss ! k)"
    by blast
  have "invariant ((s' # ss) ! k) \<and> frees_at_zero ((s # s' # ss) ! k) ((s' # ss) ! k)"
    if "k < length (s' # ss)" for k
  proof (cases k)
    case 0
    with inv' f show ?thesis by simp
  next
    case (Suc m)
    with that have "m < length ss" by simp
    from all [OF this] Suc show ?thesis by simp
  qed
  with st r len show ?case by simp
qed

text \<open>
  Witness for C1: an object is allocated, owned by a handle, the handle is copied, the
  first handle is reset, and both are destroyed; the object and its count are deleted by
  the destruction of the second handle, when the count goes from 1 to 0.
\<close>

theorem shared_count_invariant_witness:
  "admissible_run
     [New [Transform, Component], FromRaw 1, Copy 0, Reset 0 0, Destroy 1, Destroy 0] init \<and>
   run [New [Transform, Component], FromRaw 1, Copy 0, Reset 0 0, Destroy 1, Destroy 0] init =
     Inr [\<lparr>free_store = \<lparr>mem = [Obj [Transform, Component]], freed = []\<rparr>, vars = []\<rparr>,
          \<lparr>free_store = \<lparr>mem = [Obj [Transform, Component], Cell 1], freed = []\<rparr>,
             vars = [Some \<lparr>ptr = 1, refCount = 2\<rparr>]\<rparr>,
          \<lparr>free_store = \<lparr>mem = [Obj [Transform, Component], Cell 2], freed = []\<rparr>,
             vars = [Some \<lparr>ptr = 1, refCount = 2\<rparr>, Some \<lparr>ptr = 1, refCount = 2\<rparr>]\<rparr>,
          \<lparr>free_store = \<lparr>mem = [Obj [Transform, Component], Cell 1], freed = []\<rparr>,
             vars = [Some \<lparr>ptr = 0, refCount = 0\<rparr>, Some \<lparr>ptr = 1, refCount = 2\<rparr>]\<rparr>,
          \<lparr>free_store = \<lparr>mem = [Freed, Freed], freed = [1, 2]\<rparr>,
             vars = [Some \<lparr>ptr = 0, refCount = 0\<rparr>, None]\<rparr>,
          \<lparr>free_store = \<lparr>mem = [Freed, Freed], freed = [1, 2]\<rparr>, vars = [None, None]\<rparr>] \<and>
   invariant (\<lparr>free_store = \<lparr>mem = [Freed, Freed], freed = [1, 2]\<rparr>,
               vars = [Some \<lparr>ptr = 0, refCount = 0\<rparr>, None]\<rparr> :: class_id state) \<and>
   frees_at_zero
     \<lparr>free_store = \<lparr>mem = [Obj [Transform, Component], Cell 1], freed = []\<rparr>,
        vars = [Some \<lparr>ptr = 0, refCount = 0\<rparr>, Some \<lparr>ptr = 1, refCount = 2\<rparr>]\<rparr>
     \<lparr>free_store = \<lparr>mem = [Freed, Freed], freed = [1, 2]\<rparr>,
        vars = [Some \<lparr>ptr = 0, refCount = 0\<rparr>, None]\<rparr>"
proof -
  let ?xs = "[New [Transform, Component], FromRaw 1, Copy 0, Reset 0 0, Destroy 1, Destroy 0]"
  have a: "admissible_run ?xs (init :: class_id state)"
    by (simp add: init_def var_def unowned_def targets_def store_defs shared_defs)
  have r: "run ?xs (init :: class_id state) =
     Inr [\<lparr>free_store = \<lparr>mem = [Obj [Transform, Component]], freed = []\<rparr>, vars = []\<rparr>,
          \<lparr>free_store = \<lparr>mem = [Obj [Transform, Component], Cell 1], freed = []\<rparr>,
             vars = [Some \<lparr>ptr = 1, refCount = 2\<rparr>]\<rparr>,
          \<lparr>free_store = \<lparr>mem = [Obj [Transform, Component], Cell 2], freed = []\<rparr>,
             vars = [Some \<lparr>ptr = 1, refCount = 2\<rparr>, Some \<lparr>ptr = 1, refCount = 2\<rparr>]\<rparr>,
          \<lparr>free_store = \<lparr>mem = [Obj [Transform, Component], Cell 1], freed = []\<rparr>,
             vars = [Some \<lparr>ptr = 0, refCount = 0\<rparr>, Some \<lparr>ptr = 1, refCount = 2\<rparr>]\<rparr>,
          \<lparr>free_store = \<lparr>mem = [Freed, Freed], freed = [1, 2]\<rparr>,
             vars = [Some \<lparr>ptr = 0, refCount = 0\<rparr>, None]\<rparr>,
          \<lparr>free_store = \<lparr>mem = [Freed, Freed], freed = [1, 2]\<rparr>, vars = [None, None]\<rparr>]"
    by (simp add: init_def var_def store_defs shared_defs)
  from shared_count_invariant [OF invariant_init a] obtain ss where
    ss: "run ?xs (init :: class_id state) = Inr ss" and
    all: "\<And>k. k < length ss \<Longrightarrow>
      invariant (ss ! k) \<and> frees_at_zero ((init # ss) ! k) (ss ! k)"
    by blast
  from ss r have eq: "ss =
        [\<lparr>free_store = \<lparr>mem = [Obj [Transform, Component]], freed = []\<rparr>, vars = []\<rparr>,
          \<lparr>free_store = \<lparr>mem = [Obj [Transform, Component], Cell 1], freed = []\<rparr>,
             vars = [Some \<lparr>ptr = 1, refCount = 2\<rparr>]\<rparr>,
          \<lparr>free_store = \<lparr>mem = [Obj [Transform, Component], Cell 2], freed = []\<rparr>,
             vars = [Some \<lparr>ptr = 1, refCount = 2\<rparr>, Some \<lparr>ptr = 1, refCount = 2\<rparr>]\<rparr>,
          \<lparr>free_store = \<lparr>mem = [Obj [Transform, Component], Cell 1], freed = []\<rparr>,
             vars = [Some \<lparr>ptr = 0, refCount = 0\<rparr>, Some \<lparr>ptr = 1, refCount = 2\<rparr>]\<rparr>,
          \<lparr>free_store = \<lparr>mem = [Freed, Freed], freed = [1, 2]\<rparr>,
             vars = [Some \<lparr>ptr = 0, refCount = 0\<rparr>, None]\<rparr>,
          \<lparr>free_store = \<lparr>mem = [Freed, Freed], freed = [1, 2]\<rparr>, vars = [None, None]\<rparr>]"
    by simp
  from all [of 4] have "invariant (ss ! 4) \<and> frees_at_zero ((init # ss) ! 4) (ss ! 4)"
    by (simp add: eq)
  then have "invariant (\<lparr>free_store = \<lparr>mem = [Freed, Freed], freed = [1, 2]\<rparr>,
               vars = [Some \<lparr>ptr = 0, refCount = 0\<rparr>, None]\<rparr> :: class_id state) \<and>
   frees_at_zero
     \<lparr>free_store = \<lparr>mem = [Obj [Transform, Component], Cell 1], freed = []\<rparr>,
        vars = [Some \<lparr>ptr = 0, refCount = 0\<rparr>, Some \<lparr>ptr = 1, refCount = 2\<rparr>]\<rparr>
     \<lparr>free_store = \<lparr>mem = [Freed, Freed], freed = [1, 2]\<rparr>,
        vars = [Some \<lparr>ptr = 0, refCount = 0\<rparr>, None]\<rparr>"
    by (simp add: eq)
  with a r show ?thesis by simp
qed

section \<open>Transform::seek\<close>












end
